theory Spec2Isabelle
  imports Main
begin

section \<open>Characters and the string methods used by the simplifier\<close>

text \<open>
  Sentences are Python \<open>str\<close> values. They are modelled as \<open>string\<close>, and a
  character is read through its code point \<open>of_char c\<close>. The classification below is the
  one Python applies to ASCII text: \<open>\w\<close> is a letter, a digit or the underscore,
  \<open>str.lower\<close> and \<open>str.upper\<close> shift the 26 letters, and the whitespace of
  \<open>str.split\<close> and \<open>str.strip\<close> is TAB, LF, VT, FF, CR, the four separators
  28 to 31 and the space. A character outside ASCII has no case and belongs to no
  class here, so the development speaks about ASCII sentences.
\<close>

definition is_upper :: "char \<Rightarrow> bool" where
  "is_upper c = (65 \<le> (of_char c :: nat) \<and> (of_char c :: nat) \<le> 90)"

definition is_lower :: "char \<Rightarrow> bool" where
  "is_lower c = (97 \<le> (of_char c :: nat) \<and> (of_char c :: nat) \<le> 122)"

definition is_digit :: "char \<Rightarrow> bool" where
  "is_digit c = (48 \<le> (of_char c :: nat) \<and> (of_char c :: nat) \<le> 57)"

definition is_word :: "char \<Rightarrow> bool" where
  "is_word c = (is_upper c \<or> is_lower c \<or> is_digit c \<or> c = CHR ''_'')"

definition is_space :: "char \<Rightarrow> bool" where
  "is_space c = ((9 \<le> (of_char c :: nat) \<and> (of_char c :: nat) \<le> 13)
                 \<or> (28 \<le> (of_char c :: nat) \<and> (of_char c :: nat) \<le> 32))"

definition lower_char :: "char \<Rightarrow> char" where
  "lower_char c = (if is_upper c then char_of ((of_char c :: nat) + 32) else c)"

definition upper_char :: "char \<Rightarrow> char" where
  "upper_char c = (if is_lower c then char_of ((of_char c :: nat) - 32) else c)"

text \<open>\<open>s.lower()\<close>\<close>

definition str_lower :: "string \<Rightarrow> string" where
  "str_lower s = map lower_char s"

text \<open>\<open>s.capitalize()\<close>: the first character in upper case, every other one in lower case.\<close>

fun str_capitalize :: "string \<Rightarrow> string" where
  "str_capitalize [] = []"
| "str_capitalize (c # cs) = upper_char c # map lower_char cs"

text \<open>\<open>s.strip()\<close>: leading and trailing whitespace removed.\<close>

definition str_strip :: "string \<Rightarrow> string" where
  "str_strip s = rev (dropWhile is_space (rev (dropWhile is_space s)))"

text \<open>
  \<open>s.split()\<close> with no argument: the maximal runs of characters that are not whitespace.
  \<open>runs P s\<close> lists the maximal runs of characters satisfying \<open>P\<close>, left to right.
\<close>

function runs :: "(char \<Rightarrow> bool) \<Rightarrow> string \<Rightarrow> string list" where
  "runs P [] = []"
| "runs P (c # cs) =
     (if P c then takeWhile P (c # cs) # runs P (dropWhile P cs) else runs P cs)"
  by pat_completeness auto
termination
  by (relation "measure (\<lambda>(P, s). length s)")
     (auto simp: less_Suc_eq_le length_dropWhile_le)

definition str_split :: "string \<Rightarrow> string list" where
  "str_split s = runs (\<lambda>c. \<not> is_space c) s"

text \<open>\<open>sep.join(parts)\<close>\<close>

fun str_join :: "string \<Rightarrow> string list \<Rightarrow> string" where
  "str_join sep [] = []"
| "str_join sep [p] = p"
| "str_join sep (p # q # ps) = p @ sep @ str_join sep (q # ps)"

text \<open>\<open>str(n)\<close> for an integer: decimal digits, with a minus sign when negative.\<close>

fun str_nat :: "nat \<Rightarrow> string" where
  "str_nat n =
     (if n < 10 then [char_of (48 + n)] else str_nat (n div 10) @ [char_of (48 + n mod 10)])"

declare str_nat.simps [simp del]

definition str_int :: "int \<Rightarrow> string" where
  "str_int i = (if i < 0 then CHR ''-'' # str_nat (nat (- i)) else str_nat (nat i))"

section \<open>The regular expressions of the program\<close>

text \<open>
  The program calls \<open>re.findall\<close>, \<open>re.sub\<close> and \<open>re.split\<close> on patterns built from
  literal characters, \<open>\b\<close>, \<open>\w+\<close>, a character set, grouping with alternatives and an
  optional group. \<open>rmatch\<close> is the backtracking matcher on that fragment: from a position,
  given as whether the character before it is a word character and the text that
  follows, it lists the positions where a match can end, in the order in which the
  matcher tries them (an earlier alternative first, a longer repetition first). The
  head of the list is the match Python reports. With \<open>ic\<close> the flag
  \<open>re.IGNORECASE\<close> is set.
\<close>

datatype regex =
    Eps
  | Lit char
  | Bnd
  | WordPlus
  | Cls "char list"
  | Seq regex regex
  | Alt regex regex
  | Opt regex

type_synonym pos = "bool \<times> string"

fun word_plus :: "string \<Rightarrow> pos list" where
  "word_plus [] = []"
| "word_plus (d # ds) = (if is_word d then word_plus ds @ [(True, ds)] else [])"

fun rmatch :: "bool \<Rightarrow> regex \<Rightarrow> pos \<Rightarrow> pos list" where
  "rmatch ic Eps st = [st]"
| "rmatch ic (Lit c) (p, s) =
     (case s of
        [] \<Rightarrow> []
      | d # ds \<Rightarrow>
          if (if ic then lower_char d = lower_char c else d = c)
          then [(is_word d, ds)] else [])"
| "rmatch ic Bnd (p, s) =
     (if p \<noteq> (case s of [] \<Rightarrow> False | d # ds \<Rightarrow> is_word d) then [(p, s)] else [])"
| "rmatch ic WordPlus (p, s) = word_plus s"
| "rmatch ic (Cls cs) (p, s) =
     (case s of
        [] \<Rightarrow> []
      | d # ds \<Rightarrow> if d \<in> set cs then [(is_word d, ds)] else [])"
| "rmatch ic (Seq a b) st = concat (map (rmatch ic b) (rmatch ic a st))"
| "rmatch ic (Alt a b) st = rmatch ic a st @ rmatch ic b st"
| "rmatch ic (Opt a) st = rmatch ic a st @ [st]"

text \<open>
  The first match at a position, as the text that follows it. Every pattern of the
  program consumes at least one character; a match of length zero is therefore not
  reported.
\<close>

definition match_here :: "bool \<Rightarrow> regex \<Rightarrow> bool \<Rightarrow> string \<Rightarrow> pos option" where
  "match_here ic r p s =
     (case rmatch ic r (p, s) of
        [] \<Rightarrow> None
      | (p', rest) # more \<Rightarrow> if length rest < length s then Some (p', rest) else None)"

text \<open>\<open>re.search(r, s) is not None\<close>: some position of \<open>s\<close> starts a match.\<close>

fun search_from :: "bool \<Rightarrow> regex \<Rightarrow> bool \<Rightarrow> string \<Rightarrow> bool" where
  "search_from ic r p [] = False"
| "search_from ic r p (c # cs) =
     (match_here ic r p (c # cs) \<noteq> None \<or> search_from ic r (is_word c) cs)"

definition re_search :: "bool \<Rightarrow> regex \<Rightarrow> string \<Rightarrow> bool" where
  "re_search ic r s = search_from ic r False s"

text \<open>
  \<open>re.sub(r, repl, s)\<close>: the matches are found left to right without overlap and each
  is replaced by \<open>repl\<close>; the text between them is copied.
\<close>

function sub_from :: "bool \<Rightarrow> regex \<Rightarrow> string \<Rightarrow> bool \<Rightarrow> string \<Rightarrow> string" where
  "sub_from ic r repl p [] = []"
| "sub_from ic r repl p (c # cs) =
     (case match_here ic r p (c # cs) of
        None \<Rightarrow> c # sub_from ic r repl (is_word c) cs
      | Some (p', rest) \<Rightarrow> repl @ sub_from ic r repl p' rest)"
  by pat_completeness auto
termination
  by (relation "measure (\<lambda>(ic, r, repl, p, s). length s)")
     (auto simp: match_here_def split: list.splits if_splits)

definition re_sub :: "bool \<Rightarrow> regex \<Rightarrow> string \<Rightarrow> string \<Rightarrow> string" where
  "re_sub ic r repl s = sub_from ic r repl False s"

text \<open>\<open>re.findall(r, s)\<close> for a pattern without groups: the matched texts, left to right.\<close>

function findall_from :: "bool \<Rightarrow> regex \<Rightarrow> bool \<Rightarrow> string \<Rightarrow> string list" where
  "findall_from ic r p [] = []"
| "findall_from ic r p (c # cs) =
     (case match_here ic r p (c # cs) of
        None \<Rightarrow> findall_from ic r (is_word c) cs
      | Some (p', rest) \<Rightarrow>
          take (length (c # cs) - length rest) (c # cs) # findall_from ic r p' rest)"
  by pat_completeness auto
termination
  by (relation "measure (\<lambda>(ic, r, p, s). length s)")
     (auto simp: match_here_def split: list.splits if_splits)

definition re_findall :: "bool \<Rightarrow> regex \<Rightarrow> string \<Rightarrow> string list" where
  "re_findall ic r s = findall_from ic r False s"

text \<open>
  \<open>re.split(r, s)\<close>: the pieces of \<open>s\<close> between the matches, empty pieces included.
  \<open>acc\<close> holds the current piece, reversed.
\<close>

function split_from :: "bool \<Rightarrow> regex \<Rightarrow> bool \<Rightarrow> string \<Rightarrow> string \<Rightarrow> string list" where
  "split_from ic r p acc [] = [rev acc]"
| "split_from ic r p acc (c # cs) =
     (case match_here ic r p (c # cs) of
        None \<Rightarrow> split_from ic r (is_word c) (c # acc) cs
      | Some (p', rest) \<Rightarrow> rev acc # split_from ic r p' [] rest)"
  by pat_completeness auto
termination
  by (relation "measure (\<lambda>(ic, r, p, acc, s). length s)")
     (auto simp: match_here_def split: list.splits if_splits)

definition re_split :: "bool \<Rightarrow> regex \<Rightarrow> string \<Rightarrow> string list" where
  "re_split ic r s = split_from ic r False [] s"

text \<open>
  The pattern builders: a literal text, the group \<open>(t1|t2|...)\<close>, a sequence of
  patterns, and \<open>\btext\b\<close>.
\<close>

fun lits :: "string \<Rightarrow> regex" where
  "lits [] = Eps"
| "lits (c # cs) = Seq (Lit c) (lits cs)"

fun alts :: "string list \<Rightarrow> regex" where
  "alts [] = Cls []"
| "alts [w] = lits w"
| "alts (w # v # ws) = Alt (lits w) (alts (v # ws))"

fun seqs :: "regex list \<Rightarrow> regex" where
  "seqs [] = Eps"
| "seqs (r # rs) = Seq r (seqs rs)"

definition word_pat :: "string \<Rightarrow> regex" where
  "word_pat w = seqs [Bnd, lits w, Bnd]"

section \<open>The rule tables\<close>

text \<open>
  \<open>Config\<close> is the dataclass of the rule tables. A \<open>dict\<close> is kept as the list of its
  items in insertion order, since the passes iterate over the items; a \<open>set\<close> is only
  tested for membership. The literal of \<open>synonyms\<close> writes the key \<open>utilize\<close> twice
  with the same value, which leaves one item at the first position.
\<close>

record Config =
  stop_words :: "string set"
  synonyms :: "(string \<times> string) list"
  redundant_phrases :: "(string \<times> string) list"
  number_mapping :: "(string \<times> string) list"
  compression_levels :: "(int \<times> string) list"
  unnecessary_adjectives :: "string set"

definition default_stop_words :: "string set" where
  "default_stop_words =
     {''the'', ''is'', ''in'', ''at'', ''of'', ''and'', ''to'', ''for'', ''on'', ''with'',
      ''a'', ''an''}"

definition default_synonyms :: "(string \<times> string) list" where
  "default_synonyms =
     [(''utilize'', ''use''), (''demonstrate'', ''show''), (''accomplish'', ''do''),
      (''in order to'', ''to''), (''due to the fact that'', ''because''),
      (''approximately'', ''approx.''), (''for example'', ''e.g.''),
      (''do not'', ''don'' @ [CHR 0x27] @ ''t''), (''cannot'', ''can'' @ [CHR 0x27] @ ''t''),
      (''does not'', ''doesn'' @ [CHR 0x27] @ ''t''),
      (''implement'', ''use''), (''facilitate'', ''help''), (''leverage'', ''use''),
      (''optimize'', ''improve''), (''enhance'', ''improve''), (''mitigate'', ''reduce''),
      (''necessitate'', ''need''), (''commence'', ''start''),
      (''terminate'', ''end''), (''subsequent'', ''later''), (''prior to'', ''before''),
      (''in the event that'', ''if''), (''despite the fact that'', ''although''),
      (''at this point in time'', ''now''), (''in the near future'', ''soon'')]"

definition default_redundant_phrases :: "(string \<times> string) list" where
  "default_redundant_phrases =
     [(''repeat again'', ''repeat''), (''added bonus'', ''bonus''),
      (''advance planning'', ''planning''), (''basic essentials'', ''essentials''),
      (''blend together'', ''blend''), (''collaborate together'', ''collaborate''),
      (''end result'', ''result''), (''future plans'', ''plans''),
      (''past history'', ''history''), (''revert back'', ''revert''),
      (''sum total'', ''total''), (''unexpected surprise'', ''surprise'')]"

definition default_number_mapping :: "(string \<times> string) list" where
  "default_number_mapping =
     [(''one'', ''1''), (''two'', ''2''), (''three'', ''3''), (''four'', ''4''),
      (''five'', ''5''), (''six'', ''6''), (''seven'', ''7''), (''eight'', ''8''),
      (''nine'', ''9''), (''ten'', ''10''), (''eleven'', ''11''), (''twelve'', ''12''),
      (''thirteen'', ''13''), (''fourteen'', ''14''), (''fifteen'', ''15''),
      (''sixteen'', ''16''), (''seventeen'', ''17''), (''eighteen'', ''18''),
      (''nineteen'', ''19''), (''twenty'', ''20''), (''thirty'', ''30''),
      (''forty'', ''40''), (''fifty'', ''50''), (''sixty'', ''60''),
      (''seventy'', ''70''), (''eighty'', ''80''), (''ninety'', ''90''),
      (''hundred'', ''100''), (''thousand'', ''1000''), (''million'', ''1000000'')]"

definition default_compression_levels :: "(int \<times> string) list" where
  "default_compression_levels =
     [(1, ''minimal''), (2, ''moderate''), (3, ''aggressive''), (4, ''maximum'')]"

definition default_unnecessary_adjectives :: "string set" where
  "default_unnecessary_adjectives =
     {''very'', ''extremely'', ''really'', ''just'', ''simply'', ''quite'', ''rather'',
      ''somewhat'', ''fairly'', ''pretty'', ''totally'', ''absolutely'', ''completely'',
      ''utterly'', ''entirely'', ''fully'', ''thoroughly'', ''wholly'', ''perfectly''}"

definition default_config :: Config where
  "default_config =
     \<lparr> stop_words = default_stop_words,
       synonyms = default_synonyms,
       redundant_phrases = default_redundant_phrases,
       number_mapping = default_number_mapping,
       compression_levels = default_compression_levels,
       unnecessary_adjectives = default_unnecessary_adjectives \<rparr>"

section \<open>The simplifier\<close>

text \<open>
  An \<open>LLMTextSimplifier\<close> object holds its tables and the active level (the attribute
  \<open>_level\<close>). The only exception of the program is the \<open>ValueError\<close> of \<open>set_level\<close>;
  the built-ins \<open>min\<close> and \<open>max\<close> raise the same class on an empty sequence, with a
  text of their own.
\<close>

record simplifier =
  config :: Config
  level :: int

datatype error = ValueError string

definition py_min :: "int list \<Rightarrow> error + int" where
  "py_min xs =
     (case xs of
        [] \<Rightarrow> Inl (ValueError ''min() iterable argument is empty'')
      | y # ys \<Rightarrow> Inr (fold min ys y))"

definition py_max :: "int list \<Rightarrow> error + int" where
  "py_max xs =
     (case xs of
        [] \<Rightarrow> Inl (ValueError ''max() iterable argument is empty'')
      | y # ys \<Rightarrow> Inr (fold max ys y))"

definition invalid_level_message :: "int \<Rightarrow> int \<Rightarrow> string" where
  "invalid_level_message lo hi =
     ''Invalid level. Choose between '' @ str_int lo @ '' and '' @ str_int hi @ ''.''"

text \<open>
  \<open>set_level\<close> returns what the call produced together with the object after the
  call: the assignment happens in the first branch only.
\<close>

definition set_level :: "int \<Rightarrow> simplifier \<Rightarrow> (error + unit) \<times> simplifier" where
  "set_level lvl self =
     (let keys = map fst (compression_levels (config self)) in
      if lvl \<in> set keys then (Inr (), self\<lparr>level := lvl\<rparr>)
      else
        (case py_min keys of
           Inl e \<Rightarrow> (Inl e, self)
         | Inr lo \<Rightarrow>
             (case py_max keys of
                Inl e \<Rightarrow> (Inl e, self)
              | Inr hi \<Rightarrow> (Inl (ValueError (invalid_level_message lo hi)), self))))"

text \<open>
  The constructor: \<open>config or Config()\<close>, then \<open>set_level(level)\<close> on the new object,
  whose \<open>_level\<close> does not exist before the call succeeds.
\<close>

definition init :: "Config option \<Rightarrow> int \<Rightarrow> error + simplifier" where
  "init cfg lvl =
     (let c = (case cfg of None \<Rightarrow> default_config | Some c' \<Rightarrow> c') in
      case set_level lvl \<lparr> config = c, level = lvl \<rparr> of
        (Inl e, self) \<Rightarrow> Inl e
      | (Inr u, self) \<Rightarrow> Inr self)"

definition tokenize :: "string \<Rightarrow> string list" where
  "tokenize sentence = re_findall False (seqs [Bnd, WordPlus, Bnd]) (str_lower sentence)"

definition remove_stop_words :: "Config \<Rightarrow> string list \<Rightarrow> string list" where
  "remove_stop_words cfg tokens = filter (\<lambda>word. word \<notin> stop_words cfg) tokens"

definition replace_synonyms :: "Config \<Rightarrow> string list \<Rightarrow> string list" where
  "replace_synonyms cfg tokens =
     map (\<lambda>word. case map_of (synonyms cfg) word of None \<Rightarrow> word | Some v \<Rightarrow> v) tokens"

definition remove_unnecessary_adjectives :: "Config \<Rightarrow> string list \<Rightarrow> string list" where
  "remove_unnecessary_adjectives cfg tokens =
     filter (\<lambda>word. word \<notin> unnecessary_adjectives cfg) tokens"

text \<open>
  The three table-driven passes run \<open>re.sub\<close> once per item, in the order of the
  table, each on the result of the one before. The keys of the tables are letters
  and spaces, so the pattern is the key as a literal between two \<open>\b\<close>.
\<close>

definition simplify_phrases :: "Config \<Rightarrow> string \<Rightarrow> string" where
  "simplify_phrases cfg sentence =
     fold (\<lambda>(long_phrase, short_phrase) s. re_sub True (word_pat long_phrase) short_phrase s)
       (synonyms cfg) sentence"

definition remove_redundant_phrases :: "Config \<Rightarrow> string \<Rightarrow> string" where
  "remove_redundant_phrases cfg sentence =
     fold (\<lambda>(phrase, replacement) s. re_sub True (word_pat phrase) replacement s)
       (redundant_phrases cfg) sentence"

definition convert_numbers :: "Config \<Rightarrow> string \<Rightarrow> string" where
  "convert_numbers cfg sentence =
     fold (\<lambda>(word, num) s. re_sub True (word_pat word) num s) (number_mapping cfg) sentence"

definition passive_pattern :: "string \<Rightarrow> regex" where
  "passive_pattern aux =
     seqs [Bnd, lits aux, Bnd, Lit CHR '' '', Opt (lits ''being ''),
           alts [''done'', ''used'', ''shown'', ''demonstrated''], lits '' by'', Bnd]"

definition passive_patterns :: "(regex \<times> string) list" where
  "passive_patterns = [(passive_pattern ''is'', ''does''), (passive_pattern ''are'', ''do'')]"

definition convert_passive_to_active :: "string \<Rightarrow> string" where
  "convert_passive_to_active sentence =
     fold (\<lambda>(pattern, replacement) s. re_sub True pattern replacement s)
       passive_patterns sentence"

definition linking_verbs :: "string list" where
  "linking_verbs = [''is'', ''are'', ''am'', ''was'', ''were'']"

definition having_verbs :: "string list" where
  "having_verbs = [''has'', ''have'', ''had'']"

definition relative_pronouns :: "string list" where
  "relative_pronouns = [''that'', ''which'', ''who'']"

definition compress_max :: "string \<Rightarrow> string" where
  "compress_max sentence =
     (let sentence = re_sub True (seqs [Bnd, alts linking_verbs, Bnd]) [] sentence;
          sentence = re_sub True (seqs [Bnd, alts having_verbs, Bnd]) [] sentence;
          sentence = re_sub True (seqs [Bnd, alts relative_pronouns, Bnd]) [] sentence
      in str_strip sentence)"

definition split_long_sentences :: "string \<Rightarrow> string" where
  "split_long_sentences sentence =
     (if length (str_split sentence) > 20 then
        (let parts = re_split False (Cls '',;'') sentence in
         if length parts > 1
         then str_join ''. '' (map (\<lambda>part. str_capitalize (str_strip part)) parts)
         else sentence)
      else sentence)"

text \<open>
  \<open>_simplify\<close>. The two local variables are threaded as a pair: below level 2
  \<open>sentence\<close> is still the argument, because the tokens are joined into it in the
  second block only.
\<close>

definition simplify :: "simplifier \<Rightarrow> string \<Rightarrow> string" where
  "simplify self sentence0 =
     (let cfg = config self;
          tokens = tokenize sentence0;
          sentence = sentence0;
          tokens =
            (if level self \<ge> 1 then replace_synonyms cfg (remove_stop_words cfg tokens)
             else tokens);
          (tokens, sentence) =
            (if level self \<ge> 2 then
               (let tokens = remove_unnecessary_adjectives cfg tokens;
                    sentence = str_join '' '' tokens;
                    sentence = simplify_phrases cfg sentence
                in (tokens, sentence))
             else (tokens, sentence));
          sentence =
            (if level self \<ge> 3 then
               remove_redundant_phrases cfg (convert_passive_to_active sentence)
             else sentence);
          sentence = (if level self = 4 then compress_max sentence else sentence);
          sentence = split_long_sentences sentence;
          sentence = convert_numbers cfg sentence
      in str_strip sentence)"

text \<open>
  The value of \<open>sentence\<close> in \<open>_simplify\<close> when the test \<open>self._level == 4\<close> is
  reached, that is after the blocks of the levels 1, 2 and 3.
\<close>

definition before_level4 :: "simplifier \<Rightarrow> string \<Rightarrow> string" where
  "before_level4 self sentence0 =
     (let cfg = config self;
          tokens = tokenize sentence0;
          sentence = sentence0;
          tokens =
            (if level self \<ge> 1 then replace_synonyms cfg (remove_stop_words cfg tokens)
             else tokens);
          (tokens, sentence) =
            (if level self \<ge> 2 then
               (let tokens = remove_unnecessary_adjectives cfg tokens;
                    sentence = str_join '' '' tokens;
                    sentence = simplify_phrases cfg sentence
                in (tokens, sentence))
             else (tokens, sentence));
          sentence =
            (if level self \<ge> 3 then
               remove_redundant_phrases cfg (convert_passive_to_active sentence)
             else sentence)
      in sentence)"

text \<open>
  \<open>simplify_sentence\<close> and \<open>batch_simplify\<close> also write to the logger. The state they
  run in is the object together with the messages logged so far.
\<close>

type_synonym world = "simplifier \<times> string list"

definition logger_info :: "string \<Rightarrow> world \<Rightarrow> world" where
  "logger_info msg w = (fst w, snd w @ [msg])"

definition simplify_sentence :: "string \<Rightarrow> world \<Rightarrow> string \<times> world" where
  "simplify_sentence sentence w =
     (let w = logger_info (''Original sentence: '' @ sentence) w;
          sentence = simplify (fst w) sentence;
          w = logger_info (''Simplified sentence (Level '' @ str_int (level (fst w)) @ ''): ''
                            @ sentence) w
      in (sentence, w))"

fun batch_simplify :: "string list \<Rightarrow> world \<Rightarrow> string list \<times> world" where
  "batch_simplify [] w = ([], w)"
| "batch_simplify (sentence # sentences) w =
     (let (r, w) = simplify_sentence sentence w;
          (rs, w) = batch_simplify sentences w
      in (r # rs, w))"

section \<open>Notions used to state the properties\<close>

text \<open>
  Splitting a string at every character satisfying \<open>P\<close>: the pieces between these
  characters, empty pieces included. With \<open>is_sep\<close> this is the reading of
  ``split the string on commas and semicolons''.
\<close>

fun split_on :: "(char \<Rightarrow> bool) \<Rightarrow> string \<Rightarrow> string list" where
  "split_on P [] = [[]]"
| "split_on P (c # cs) =
     (if P c then [] # split_on P cs
      else (case split_on P cs of [] \<Rightarrow> [[c]] | q # qs \<Rightarrow> (c # q) # qs))"

definition is_sep :: "char \<Rightarrow> bool" where
  "is_sep c = (c = CHR '','' \<or> c = CHR '';'')"

text \<open>
  Capitalization as ``only the first character converted to upper case and all other
  characters left unchanged''.
\<close>

fun upper_first :: "string \<Rightarrow> string" where
  "upper_first [] = []"
| "upper_first (c # cs) = upper_char c # cs"

text \<open>
  \<open>map_words f s\<close> rewrites every maximal run of word characters \<open>u\<close> of \<open>s\<close> to
  \<open>f u\<close> and copies the other characters.
\<close>

function map_words :: "(string \<Rightarrow> string) \<Rightarrow> string \<Rightarrow> string" where
  "map_words f [] = []"
| "map_words f (c # cs) =
     (if is_word c then f (takeWhile is_word (c # cs)) @ map_words f (dropWhile is_word cs)
      else c # map_words f cs)"
  by pat_completeness auto
termination
  by (relation "measure (\<lambda>(f, s). length s)")
     (auto simp: less_Suc_eq_le length_dropWhile_le)

text \<open>
  A word in the sense of the patterns \<open>\bword\b\<close>: a non-empty text of word
  characters. \<open>word_rule ws r\<close> is what a substitution of the words \<open>ws\<close> by \<open>r\<close>
  does to one run of word characters.
\<close>

definition wordy :: "string \<Rightarrow> bool" where
  "wordy w = (w \<noteq> [] \<and> (\<forall>c \<in> set w. is_word c))"

definition word_rule :: "string list \<Rightarrow> string \<Rightarrow> string \<Rightarrow> string" where
  "word_rule ws r u = (if map lower_char u \<in> set (map (map lower_char) ws) then r else u)"

text \<open>
  What a table of word replacements does to one run of word characters: the run is
  looked up in lower case and replaced by the entry found, or kept. \<open>lower_keys\<close>
  is the table with its keys in lower case.
\<close>

definition number_rule :: "(string \<times> string) list \<Rightarrow> string \<Rightarrow> string" where
  "number_rule tbl u = (case map_of tbl (map lower_char u) of None \<Rightarrow> u | Some n \<Rightarrow> n)"

definition lower_keys :: "(string \<times> string) list \<Rightarrow> (string \<times> string) list" where
  "lower_keys tbl = map (\<lambda>(w, r). (map lower_char w, r)) tbl"

text \<open>
  The words that level 4 removes, their occurrences among the tokens of a string, in
  order, and two sentences of 21 words.
\<close>

definition removed_words :: "string list" where
  "removed_words = linking_verbs @ having_verbs @ relative_pronouns"

definition removed_tokens :: "string \<Rightarrow> string list" where
  "removed_tokens x = filter (\<lambda>t. t \<in> set removed_words) (tokenize x)"

definition trailing_comma :: string where
  "trailing_comma = ''a a a a a a a a a a a a a a a a a a a a a,''"

definition mixed_case :: string where
  "mixed_case = ''a B a a a a a a a a a a a a a a a a a a a; c D''"

definition plain_level :: "int \<Rightarrow> simplifier" where
  "plain_level n = \<lparr> config = default_config, level = n \<rparr>"

section \<open>Evaluating the character classes\<close>

text \<open>
  On a character given by its eight bits (least significant first) the classes are
  propositional formulas. These equations let the simplifier run the program on
  concrete sentences without arithmetic on code points.
\<close>

lemma is_upper_Char:
  "is_upper (Char b0 b1 b2 b3 b4 b5 b6 b7) =
     (\<not> b7 \<and> b6 \<and> \<not> b5 \<and> (b0 \<or> b1 \<or> b2 \<or> b3 \<or> b4) \<and> \<not> (b4 \<and> b3 \<and> (b2 \<or> (b1 \<and> b0))))"
  by (cases b0; cases b1; cases b2; cases b3; cases b4; cases b5; cases b6; cases b7;
      simp add: is_upper_def)

lemma is_lower_Char:
  "is_lower (Char b0 b1 b2 b3 b4 b5 b6 b7) =
     (\<not> b7 \<and> b6 \<and> b5 \<and> (b0 \<or> b1 \<or> b2 \<or> b3 \<or> b4) \<and> \<not> (b4 \<and> b3 \<and> (b2 \<or> (b1 \<and> b0))))"
  by (cases b0; cases b1; cases b2; cases b3; cases b4; cases b5; cases b6; cases b7;
      simp add: is_lower_def)

lemma is_digit_Char:
  "is_digit (Char b0 b1 b2 b3 b4 b5 b6 b7) =
     (\<not> b7 \<and> \<not> b6 \<and> b5 \<and> b4 \<and> (\<not> b3 \<or> (\<not> b2 \<and> \<not> b1)))"
  by (cases b0; cases b1; cases b2; cases b3; cases b4; cases b5; cases b6; cases b7;
      simp add: is_digit_def)

lemma is_space_Char:
  "is_space (Char b0 b1 b2 b3 b4 b5 b6 b7) =
     (\<not> b7 \<and> \<not> b6 \<and>
       ((\<not> b5 \<and> \<not> b4 \<and> b3 \<and> ((\<not> b2 \<and> (b1 \<or> b0)) \<or> (b2 \<and> \<not> b1)))
        \<or> (\<not> b5 \<and> b4 \<and> b3 \<and> b2)
        \<or> (b5 \<and> \<not> b4 \<and> \<not> b3 \<and> \<not> b2 \<and> \<not> b1 \<and> \<not> b0)))"
  by (cases b0; cases b1; cases b2; cases b3; cases b4; cases b5; cases b6; cases b7;
      simp add: is_space_def)

lemma lower_char_Char:
  "lower_char (Char b0 b1 b2 b3 b4 b5 b6 b7) =
     (if is_upper (Char b0 b1 b2 b3 b4 b5 b6 b7) then Char b0 b1 b2 b3 b4 True b6 b7
      else Char b0 b1 b2 b3 b4 b5 b6 b7)"
proof -
  have "(of_char (lower_char (Char b0 b1 b2 b3 b4 b5 b6 b7)) :: nat) =
     of_char (if is_upper (Char b0 b1 b2 b3 b4 b5 b6 b7) then Char b0 b1 b2 b3 b4 True b6 b7
      else Char b0 b1 b2 b3 b4 b5 b6 b7)"
    by (cases b0; cases b1; cases b2; cases b3; cases b4; cases b5; cases b6; cases b7;
        simp add: lower_char_def is_upper_def)
  then show ?thesis by (simp only: of_char_eq_iff)
qed

lemma upper_char_Char:
  "upper_char (Char b0 b1 b2 b3 b4 b5 b6 b7) =
     (if is_lower (Char b0 b1 b2 b3 b4 b5 b6 b7) then Char b0 b1 b2 b3 b4 False b6 b7
      else Char b0 b1 b2 b3 b4 b5 b6 b7)"
proof -
  have "(of_char (upper_char (Char b0 b1 b2 b3 b4 b5 b6 b7)) :: nat) =
     of_char (if is_lower (Char b0 b1 b2 b3 b4 b5 b6 b7) then Char b0 b1 b2 b3 b4 False b6 b7
      else Char b0 b1 b2 b3 b4 b5 b6 b7)"
    by (cases b0; cases b1; cases b2; cases b3; cases b4; cases b5; cases b6; cases b7;
        simp add: upper_char_def is_lower_def)
  then show ?thesis by (simp only: of_char_eq_iff)
qed

lemmas char_eval =
  is_upper_Char is_lower_Char is_digit_Char is_space_Char lower_char_Char upper_char_Char
  is_word_def

lemmas regex_eval =
  re_sub_def re_search_def re_findall_def re_split_def word_pat_def match_here_def

lemmas table_defs =
  default_config_def default_stop_words_def default_synonyms_def
  default_redundant_phrases_def default_number_mapping_def default_compression_levels_def
  default_unnecessary_adjectives_def

lemmas pipeline_defs =
  simplify_def tokenize_def str_lower_def remove_stop_words_def replace_synonyms_def
  remove_unnecessary_adjectives_def simplify_phrases_def remove_redundant_phrases_def
  convert_passive_to_active_def passive_patterns_def passive_pattern_def compress_max_def
  split_long_sentences_def str_split_def str_strip_def convert_numbers_def
  linking_verbs_def having_verbs_def relative_pronouns_def

section \<open>Facts about the matcher\<close>

lemma sub_from_no_match: "\<not> search_from ic r p s \<Longrightarrow> sub_from ic r repl p s = s"
  by (induction s arbitrary: p) (auto split: option.splits)

lemma re_sub_no_match: "\<not> re_search ic r s \<Longrightarrow> re_sub ic r repl s = s"
  by (simp add: re_search_def re_sub_def sub_from_no_match)

lemma fold_re_sub_no_match:
  "\<forall>(w, n) \<in> set tbl. \<not> re_search True (word_pat w) s \<Longrightarrow>
   fold (\<lambda>(w, n) s. re_sub True (word_pat w) n s) tbl s = s"
  by (induction tbl) (auto simp: re_sub_no_match)

section \<open>The tokenizer\<close>

lemma is_word_lower_char [simp]: "is_word (lower_char c) = is_word c"
  by (cases c) (auto simp: char_eval)

lemma concat_rmatch_eps [simp]: "concat (map (rmatch ic Eps) xs) = xs"
  by (induction xs) auto

lemma rmatch_seq_eps [simp]: "rmatch ic (Seq a Eps) = rmatch ic a"
  by (rule ext) simp

lemma dropWhile_head: "dropWhile P xs = y # ys \<Longrightarrow> \<not> P y"
  by (metis hd_dropWhile list.sel(1) list.distinct(1))

lemma concat_bnd_word_plus:
  "concat (map (rmatch ic Bnd) (word_plus s)) =
     (case s of [] \<Rightarrow> [] | d # ds \<Rightarrow> if is_word d then [(True, dropWhile is_word s)] else [])"
proof (induction s)
  case Nil
  then show ?case by simp
next
  case (Cons d ds)
  then show ?case by (cases ds) auto
qed

lemma token_match:
  "match_here False (seqs [Bnd, WordPlus, Bnd]) p (c # cs) =
     (if \<not> p \<and> is_word c then Some (True, dropWhile is_word cs) else None)"
  by (simp add: match_here_def concat_bnd_word_plus less_Suc_eq_le length_dropWhile_le
      del: word_plus.simps)

lemma take_length_dropWhile:
  "take (length xs - length (dropWhile P xs)) xs = takeWhile P xs"
proof -
  have "length (takeWhile P xs) = length xs - length (dropWhile P xs)"
    by (metis add_diff_cancel_right' length_append takeWhile_dropWhile_id)
  then show ?thesis
    by (metis append_eq_conv_conj takeWhile_dropWhile_id)
qed

lemma findall_tokens:
  "\<not> (p \<and> (case s of [] \<Rightarrow> False | d # ds \<Rightarrow> is_word d)) \<Longrightarrow>
   findall_from False (seqs [Bnd, WordPlus, Bnd]) p s = runs is_word s"
proof (induction "length s" arbitrary: s p rule: less_induct)
  case less
  show ?case
  proof (cases s)
    case Nil
    then show ?thesis by simp
  next
    case (Cons c cs)
    show ?thesis
    proof (cases "is_word c")
      case True
      with less.prems Cons have np: "\<not> p" by simp
      have len: "length (dropWhile is_word cs) < length s"
        using Cons by (simp add: less_Suc_eq_le length_dropWhile_le)
      have hd: "\<not> (True \<and> (case dropWhile is_word cs of [] \<Rightarrow> False | d # ds \<Rightarrow> is_word d))"
        by (auto split: list.splits dest: dropWhile_head)
      have tk: "take (length (c # cs) - length (dropWhile is_word cs)) (c # cs)
                 = takeWhile is_word (c # cs)"
        using take_length_dropWhile[of "c # cs" is_word] True by simp
      show ?thesis
        using less.hyps[OF len hd] True np tk unfolding Cons
        by (simp only: findall_from.simps token_match runs.simps if_True simp_thms
            option.case prod.case)
    next
      case False
      have len: "length cs < length s" using Cons by simp
      have "findall_from False (seqs [Bnd, WordPlus, Bnd]) (is_word c) cs = runs is_word cs"
        by (rule less.hyps[OF len]) (simp add: False)
      then show ?thesis using False unfolding Cons
        by (simp add: token_match del: seqs.simps)
    qed
  qed
qed

lemma runs_none: "\<forall>c \<in> set s. \<not> P c \<Longrightarrow> runs P s = []"
  by (induction s) auto

text \<open>
  C8. \<open>tokenize\<close> is defined on every string and has no failing branch. Its result is
  the list, in order, of the maximal runs of word characters of the lower-cased
  sentence (\<open>runs is_word\<close>, the reading of the specification, against the scan with
  the pattern \<open>\b\w+\b\<close> of the code). A sentence without a word character, the empty
  one included, has no token.
\<close>

theorem tokenize_spec:
  "tokenize s = runs is_word (map lower_char s)
   \<and> ((\<forall>c \<in> set s. \<not> is_word c) \<longrightarrow> tokenize s = [])"
proof -
  have eq: "tokenize s = runs is_word (map lower_char s)"
    unfolding tokenize_def re_findall_def str_lower_def
    by (rule findall_tokens) simp
  moreover have "(\<forall>c \<in> set s. \<not> is_word c) \<longrightarrow> runs is_word (map lower_char s) = []"
    by (auto intro!: runs_none)
  ultimately show ?thesis by simp
qed


theorem tokenize_spec_witness:
  "list_all (\<lambda>c. \<not> is_word c) ''?! ,.'' \<and> tokenize ''?! ,.'' = []
   \<and> tokenize ''The cat, is_on 42 mats!'' = [''the'', ''cat'', ''is_on'', ''42'', ''mats'']"
proof -
  have h: "\<forall>c \<in> set ''?! ,.''. \<not> is_word c"
    by (simp add: char_eval)
  then have l: "list_all (\<lambda>c. \<not> is_word c) ''?! ,.''"
    by (simp only: list_all_iff)
  have r: "runs is_word (map lower_char ''The cat, is_on 42 mats!'')
           = [''the'', ''cat'', ''is_on'', ''42'', ''mats'']"
    by (simp add: char_eval)
  from tokenize_spec[of "''?! ,.''"] tokenize_spec[of "''The cat, is_on 42 mats!''"] h l r
  show ?thesis by simp
qed

section \<open>The sentence splitter\<close>

lemma cls_match:
  "match_here ic (Cls cs) p (c # rest) = (if c \<in> set cs then Some (is_word c, rest) else None)"
  by (simp add: match_here_def)

lemma split_on_nonempty [simp]: "split_on P s \<noteq> []"
  by (induction s) (auto split: list.splits)

lemma split_from_cls:
  "split_from ic (Cls cs) p acc s =
     (rev acc @ hd (split_on (\<lambda>c. c \<in> set cs) s)) # tl (split_on (\<lambda>c. c \<in> set cs) s)"
proof (induction s arbitrary: acc p)
  case Nil
  then show ?case by simp
next
  case (Cons c s)
  then show ?case
    by (cases "split_on (\<lambda>c. c \<in> set cs) s") (auto simp: cls_match)
qed

lemma re_split_seps: "re_split False (Cls '',;'') s = split_on is_sep s"
proof -
  have "(\<lambda>c. c \<in> set '',;'') = is_sep"
    by (auto simp: is_sep_def)
  then show ?thesis
    by (simp add: re_split_def split_from_cls del: set_simps)
qed

lemma length_split_on: "length (split_on P s) = Suc (length (filter P s))"
  by (induction s) (auto split: list.splits)

lemma split_on_parts: "q \<in> set (split_on P s) \<Longrightarrow> c \<in> set q \<Longrightarrow> \<not> P c"
proof (induction s arbitrary: q)
  case Nil
  then show ?case by simp
next
  case (Cons a s)
  show ?case
  proof (cases "P a")
    case True
    with Cons show ?thesis by auto
  next
    case False
    obtain r rs where r: "split_on P s = r # rs"
      by (cases "split_on P s") simp_all
    with Cons.prems False have "q = a # r \<or> q \<in> set rs" by simp
    then show ?thesis
    proof
      assume "q = a # r"
      with Cons.prems False Cons.IH[of r] r show ?thesis by auto
    next
      assume "q \<in> set rs"
      with Cons.prems Cons.IH[of q] r show ?thesis by auto
    qed
  qed
qed

lemma set_str_join: "c \<in> set (str_join sep ps) \<Longrightarrow> c \<in> set sep \<or> (\<exists>q \<in> set ps. c \<in> set q)"
  by (induction sep ps rule: str_join.induct) auto

lemma set_str_strip: "c \<in> set (str_strip s) \<Longrightarrow> c \<in> set s"
  unfolding str_strip_def by (auto dest!: set_dropWhileD)

lemma is_sep_upper_char [simp]: "is_sep (upper_char c) = is_sep c"
  by (cases c) (auto simp: char_eval is_sep_def)

lemma is_sep_lower_char [simp]: "is_sep (lower_char c) = is_sep c"
  by (cases c) (auto simp: char_eval is_sep_def)

lemma set_str_capitalize: "c \<in> set (str_capitalize q) \<Longrightarrow> is_sep c \<Longrightarrow> \<exists>d \<in> set q. is_sep d"
  by (cases q) auto

lemma split_result_no_sep:
  assumes "c \<in> set (str_join ''. '' (map (\<lambda>part. str_capitalize (str_strip part)) (split_on is_sep s)))"
  shows "\<not> is_sep c"
proof
  assume sep: "is_sep c"
  from set_str_join[OF assms] sep obtain q where q: "q \<in> set (split_on is_sep s)"
    and c: "c \<in> set (str_capitalize (str_strip q))"
    by (auto simp: is_sep_def)
  from set_str_capitalize[OF c sep] obtain d where "d \<in> set (str_strip q)" "is_sep d"
    by blast
  with set_str_strip have "d \<in> set q" by blast
  with split_on_parts[OF q] \<open>is_sep d\<close> show False by blast
qed

lemmas split_eval =
  split_long_sentences_def str_split_def str_strip_def re_split_def match_here_def

lemma split_long_sentences_eq:
  "split_long_sentences s =
     (if 20 < length (str_split s) \<and> 1 < length (split_on is_sep s)
      then str_join ''. '' (map (\<lambda>part. str_capitalize (str_strip part)) (split_on is_sep s))
      else s)"
  by (simp add: split_long_sentences_def re_split_seps Let_def del: set_simps)

text \<open>
  C2, as the code has it. The splitter changes its argument exactly when the
  whitespace word count exceeds 20 and \<open>re.split\<close> on commas and semicolons returns
  more than one part, empty parts counted; the second holds exactly when the string
  contains a comma or a semicolon. In every other case the string is returned as it
  is.
\<close>

theorem split_long_sentences_changes:
  "(split_long_sentences s \<noteq> s)
     = (20 < length (str_split s) \<and> 1 < length (re_split False (Cls '',;'') s))
   \<and> (1 < length (re_split False (Cls '',;'') s))
     = (\<exists>c \<in> set s. c = CHR '','' \<or> c = CHR '';'')"
proof -
  have parts: "(1 < length (split_on is_sep s)) = (\<exists>c \<in> set s. is_sep c)"
    by (auto simp: length_split_on filter_empty_conv)
  have "split_long_sentences s \<noteq> s"
    if "20 < length (str_split s)" and "1 < length (split_on is_sep s)"
  proof
    assume eq: "split_long_sentences s = s"
    from that parts obtain c where c: "c \<in> set s" "is_sep c" by blast
    from eq that have "s = str_join ''. '' (map (\<lambda>part. str_capitalize (str_strip part)) (split_on is_sep s))"
      by (simp add: split_long_sentences_eq)
    with c(1) have "c \<in> set (str_join ''. '' (map (\<lambda>part. str_capitalize (str_strip part)) (split_on is_sep s)))"
      by simp
    from split_result_no_sep[OF this] c(2) show False by simp
  qed
  moreover have "split_long_sentences s = s"
    if "\<not> (20 < length (str_split s) \<and> 1 < length (split_on is_sep s))"
    using that by (auto simp: split_long_sentences_eq)
  ultimately show ?thesis
    unfolding re_split_seps using parts by (auto simp: is_sep_def)
qed

theorem split_long_sentences_changes_witness:
  "split_long_sentences trailing_comma \<noteq> trailing_comma
   \<and> list_ex (\<lambda>c. c = CHR '','' \<or> c = CHR '';'') trailing_comma
   \<and> split_long_sentences ''one, two'' = ''one, two''"
proof -
  have "20 < length (str_split trailing_comma)
        \<and> 1 < length (re_split False (Cls '',;'') trailing_comma)"
    by (simp add: trailing_comma_def split_eval char_eval)
  moreover have "\<not> 20 < length (str_split ''one, two'')"
    by (simp add: split_eval char_eval)
  ultimately show ?thesis
    using split_long_sentences_changes[of trailing_comma]
      split_long_sentences_changes[of "''one, two''"]
    unfolding list_ex_iff by blast
qed

text \<open>
  C4, as the code has it. When the splitter triggers, its result is the parts between
  the commas and semicolons, each trimmed and then capitalized as \<open>str.capitalize\<close>
  does it, the first character in upper case and every other character in lower
  case, joined with a full stop and a space.
\<close>

theorem split_long_sentences_triggered:
  assumes "20 < length (str_split s)" and "1 < length (split_on is_sep s)"
  shows "split_long_sentences s =
     str_join ''. ''
       (map (\<lambda>part. case str_strip part of [] \<Rightarrow> [] | c # cs \<Rightarrow> upper_char c # map lower_char cs)
          (split_on is_sep s))"
proof -
  have "str_capitalize = (\<lambda>q. case q of [] \<Rightarrow> [] | c # cs \<Rightarrow> upper_char c # map lower_char cs)"
    by (rule ext) (simp split: list.splits)
  with assms show ?thesis
    by (simp add: split_long_sentences_eq)
qed

theorem split_long_sentences_triggered_witness:
  "20 < length (str_split mixed_case) \<and> 1 < length (split_on is_sep mixed_case)
   \<and> split_long_sentences mixed_case = ''A b a a a a a a a a a a a a a a a a a a a. C d''"
proof -
  have h1: "20 < length (str_split mixed_case)"
    by (simp add: mixed_case_def split_eval char_eval)
  have h2: "1 < length (split_on is_sep mixed_case)"
    by (simp add: mixed_case_def is_sep_def)
  have "str_join ''. ''
       (map (\<lambda>part. case str_strip part of [] \<Rightarrow> [] | c # cs \<Rightarrow> upper_char c # map lower_char cs)
          (split_on is_sep mixed_case)) = ''A b a a a a a a a a a a a a a a a a a a a. C d''"
    by (simp add: mixed_case_def is_sep_def str_strip_def char_eval)
  with split_long_sentences_triggered[OF h1 h2] h1 h2 show ?thesis
    by simp
qed

lemma trailing_comma_run:
  "split_long_sentences trailing_comma = ''A a a a a a a a a a a a a a a a a a a a a. ''"
  by (simp add: trailing_comma_def split_eval char_eval)

lemma mixed_case_run:
  "split_long_sentences mixed_case = ''A b a a a a a a a a a a a a a a a a a a a. C d''"
  by (simp add: mixed_case_def split_eval char_eval)

text \<open>
  C2, as stated, fails: a sentence of 21 words whose only comma is the last character
  splits into one non-empty part and an empty one, and is changed.
\<close>

theorem split_trailing_comma_counterexample:
  "20 < length (str_split trailing_comma)
   \<and> length (filter (\<lambda>part. part \<noteq> []) (re_split False (Cls '',;'') trailing_comma)) = 1
   \<and> split_long_sentences trailing_comma \<noteq> trailing_comma"
  unfolding trailing_comma_run
  by (simp add: trailing_comma_def split_eval char_eval)

text \<open>
  C4, as stated, fails: the capital letters after the first character of a part are
  changed too.
\<close>

theorem split_mixed_case_counterexample:
  "20 < length (str_split mixed_case)
   \<and> 1 < length (re_split False (Cls '',;'') mixed_case)
   \<and> split_long_sentences mixed_case
       \<noteq> str_join ''. '' (map (\<lambda>part. upper_first (str_strip part))
                              (re_split False (Cls '',;'') mixed_case))"
  unfolding mixed_case_run
  by (simp add: mixed_case_def split_eval char_eval)

section \<open>Runs of word characters\<close>

lemma takeWhile_stop: "\<not> P c \<Longrightarrow> takeWhile P (xs @ c # b) = takeWhile P xs"
  by (induction xs) auto

lemma dropWhile_stop: "\<not> P c \<Longrightarrow> dropWhile P (xs @ c # b) = dropWhile P xs @ c # b"
  by (induction xs) auto

lemma runs_append_stop: "\<not> P c \<Longrightarrow> runs P (a @ c # b) = runs P a @ runs P b"
proof (induction P a rule: runs.induct)
  case (1 P)
  then show ?case by simp
next
  case (2 P x xs)
  then show ?case
    by (simp add: takeWhile_stop dropWhile_stop)
qed

lemma runs_append_none: "\<forall>c \<in> set t. \<not> P c \<Longrightarrow> runs P (a @ t) = runs P a"
proof (induction t arbitrary: a)
  case Nil
  then show ?case by simp
next
  case (Cons c t)
  then have "runs P (a @ c # t) = runs P a @ runs P t"
    by (simp add: runs_append_stop)
  with Cons.prems show ?case by (simp add: runs_none)
qed

lemma runs_dropWhile: "(\<And>c. Q c \<Longrightarrow> \<not> P c) \<Longrightarrow> runs P (dropWhile Q s) = runs P s"
  by (induction s) auto

lemma runs_word_prefix:
  assumes "\<forall>c \<in> set u. P c" and "x = [] \<or> \<not> P (hd x)"
  shows "runs P (u @ x) = (if u = [] then [] else [u]) @ runs P x"
proof (cases u)
  case Nil
  then show ?thesis by simp
next
  case (Cons c cs)
  have tw: "takeWhile P (cs @ x) = cs"
    using assms Cons by (cases x) (auto simp: takeWhile_stop)
  have dw: "dropWhile P (cs @ x) = x"
    using assms Cons by (cases x) (auto simp: dropWhile_stop)
  show ?thesis using assms(1) unfolding Cons by (simp add: tw dw)
qed

lemma runs_map_lower:
  "runs is_word (map lower_char s) = map (map lower_char) (runs is_word s)"
proof (induction "is_word" s rule: runs.induct)
  case 1
  then show ?case by simp
next
  case (2 c cs)
  have "is_word \<circ> lower_char = is_word" by (rule ext) simp
  then show ?case using 2
    by (simp add: takeWhile_map dropWhile_map)
qed

lemma is_space_not_word: "is_space c \<Longrightarrow> \<not> is_word c"
  by (cases c) (auto simp: char_eval)

lemma runs_strip: "runs is_word (str_strip s) = runs is_word s"
proof -
  let ?t = "dropWhile is_space s"
  have "?t = rev (dropWhile is_space (rev ?t)) @ rev (takeWhile is_space (rev ?t))"
    by (metis rev_append rev_rev_ident takeWhile_dropWhile_id)
  moreover have "\<forall>c \<in> set (rev (takeWhile is_space (rev ?t))). \<not> is_word c"
    by (auto dest: set_takeWhileD is_space_not_word)
  ultimately have "runs is_word ?t = runs is_word (rev (dropWhile is_space (rev ?t)))"
    by (metis runs_append_none)
  then show ?thesis
    by (simp add: str_strip_def runs_dropWhile is_space_not_word)
qed

section \<open>Matching whole words\<close>

lemma lower_eq_is_word: "lower_char d = lower_char c \<Longrightarrow> is_word d = is_word c"
  by (metis is_word_lower_char)

lemma rmatch_lits:
  "rmatch True (lits w) (p, s) =
     (if length w \<le> length s \<and> map lower_char (take (length w) s) = map lower_char w
      then [(if w = [] then p else is_word (last w), drop (length w) s)] else [])"
proof (induction w arbitrary: p s)
  case Nil
  then show ?case by simp
next
  case (Cons c cs)
  show ?case
  proof (cases s)
    case Nil
    then show ?thesis by simp
  next
    case (Cons d ds)
    then show ?thesis
      using Cons.IH[of "is_word d" ds] by (auto dest: lower_eq_is_word)
  qed
qed

lemma split_run:
  "\<forall>c \<in> set u. P c \<Longrightarrow> x = [] \<or> \<not> P (hd x) \<Longrightarrow>
   takeWhile P (u @ x) = u \<and> dropWhile P (u @ x) = x"
  by (cases x) (auto simp: takeWhile_stop dropWhile_stop)

lemma lower_eq_all_word:
  "map lower_char u = map lower_char w \<Longrightarrow> \<forall>c \<in> set w. is_word c \<Longrightarrow> \<forall>c \<in> set u. is_word c"
proof (induction u arbitrary: w)
  case Nil
  then show ?case by simp
next
  case (Cons a u)
  then obtain b w' where w: "w = b # w'" by (cases w) auto
  with Cons.prems have "lower_char a = lower_char b" "map lower_char u = map lower_char w'"
    by auto
  with Cons.IH[of w'] Cons.prems w show ?case
    by (auto dest: lower_eq_is_word)
qed

lemma word_prefix_iff:
  assumes "wordy w"
  shows "(length w \<le> length s \<and> map lower_char (take (length w) s) = map lower_char w
          \<and> (drop (length w) s = [] \<or> \<not> is_word (hd (drop (length w) s))))
         = (map lower_char (takeWhile is_word s) = map lower_char w)"
    (is "?L = ?R")
proof
  assume l: ?L
  then have "\<forall>c \<in> set (take (length w) s). is_word c"
    using assms lower_eq_all_word[of "take (length w) s" w] by (simp add: wordy_def)
  with l have "takeWhile is_word (take (length w) s @ drop (length w) s) = take (length w) s"
    using split_run[of "take (length w) s" is_word "drop (length w) s"] by blast
  with l show ?R by simp
next
  assume r: ?R
  let ?u = "takeWhile is_word s"
  from r have len: "length ?u = length w"
    by (metis length_map)
  have s: "s = ?u @ dropWhile is_word s" by simp
  have tk: "take (length w) s = ?u"
    by (metis len append_eq_conv_conj s)
  have dr: "drop (length w) s = dropWhile is_word s"
    by (metis len append_eq_conv_conj s)
  have "dropWhile is_word s = [] \<or> \<not> is_word (hd (dropWhile is_word s))"
    by (metis hd_dropWhile)
  moreover have "length w \<le> length s"
    by (metis len length_takeWhile_le)
  ultimately show ?L using r tk dr by simp
qed

lemma word_prefix_rest:
  assumes "wordy w" and "map lower_char (takeWhile is_word s) = map lower_char w"
  shows "drop (length w) s = dropWhile is_word s"
proof -
  have "length (takeWhile is_word s) = length w"
    using assms(2) by (metis length_map)
  then show ?thesis
    by (metis append_eq_conv_conj takeWhile_dropWhile_id)
qed

lemma rmatch_bnd_true:
  "rmatch ic Bnd (True, x) = (if x = [] \<or> \<not> is_word (hd x) then [(True, x)] else [])"
  by (cases x) auto

lemma rmatch_word:
  assumes "wordy w"
  shows "rmatch True (Seq (lits w) Bnd) (p, s) =
     (if map lower_char (takeWhile is_word s) = map lower_char w
      then [(True, dropWhile is_word s)] else [])"
proof -
  define n where "n = length w"
  define C where "C = (n \<le> length s \<and> map lower_char (take n s) = map lower_char w)"
  define B where "B = (drop n s = [] \<or> \<not> is_word (hd (drop n s)))"
  have flag: "(if w = [] then p else is_word (last w)) = True"
    using assms by (simp add: wordy_def)
  have lits: "rmatch True (lits w) (p, s) = (if C then [(True, drop n s)] else [])"
    unfolding rmatch_lits flag C_def n_def ..
  have "rmatch True (Seq (lits w) Bnd) (p, s) = (if C \<and> B then [(True, drop n s)] else [])"
    by (simp add: lits rmatch_bnd_true B_def del: rmatch.simps(3))
  moreover have "(C \<and> B) = (map lower_char (takeWhile is_word s) = map lower_char w)"
    using word_prefix_iff[OF assms, of s] unfolding C_def B_def n_def by blast
  moreover have "drop n s = dropWhile is_word s"
    if "map lower_char (takeWhile is_word s) = map lower_char w"
    using word_prefix_rest[OF assms that] by (simp add: n_def)
  ultimately show ?thesis by auto
qed

lemma rmatch_cls_nil [simp]: "rmatch ic (Cls []) st = []"
  by (cases st) (auto split: list.splits)

lemma rmatch_alts:
  "rmatch ic (Seq (alts ws) b) st = concat (map (\<lambda>w. rmatch ic (Seq (lits w) b) st) ws)"
  by (induction ws rule: alts.induct) (auto split: list.splits prod.splits)

lemma first_of_choices:
  "(case concat (map (\<lambda>w. if Q w then [x] else []) ws) of [] \<Rightarrow> a | y # ys \<Rightarrow> f y)
     = (if \<exists>w \<in> set ws. Q w then f x else a)"
  by (induction ws) auto

lemma rmatch_seq_bnd_eps: "rmatch ic (Seq a (Seq Bnd Eps)) = rmatch ic (Seq a Bnd)"
  by (rule ext) simp

lemma rmatch_bounded:
  "rmatch True (seqs [Bnd, alts ws, Bnd]) (p, s) =
     (if p \<noteq> (case s of [] \<Rightarrow> False | d # ds \<Rightarrow> is_word d)
      then rmatch True (Seq (alts ws) Bnd) (p, s) else [])"
proof -
  have a: "rmatch True (seqs [Bnd, alts ws, Bnd]) (p, s) =
        concat (map (rmatch True (Seq (alts ws) Bnd)) (rmatch True Bnd (p, s)))"
    by (simp only: seqs.simps rmatch.simps(6) rmatch_seq_bnd_eps)
  show ?thesis
  proof (cases "p \<noteq> (case s of [] \<Rightarrow> False | d # ds \<Rightarrow> is_word d)")
    case True
    then have "rmatch True Bnd (p, s) = [(p, s)]" by simp
    with True show ?thesis unfolding a by simp
  next
    case False
    then have "rmatch True Bnd (p, s) = []" by simp
    with False show ?thesis unfolding a by simp
  qed
qed

lemma match_words:
  assumes "\<forall>w \<in> set ws. wordy w"
  shows "match_here True (seqs [Bnd, alts ws, Bnd]) p s =
     (if \<not> p \<and> map lower_char (takeWhile is_word s) \<in> set (map (map lower_char) ws)
      then Some (True, dropWhile is_word s) else None)"
proof -
  let ?run = "map lower_char (takeWhile is_word s)"
  let ?hit = "\<exists>w \<in> set ws. ?run = map lower_char w"
  let ?sw = "case s of [] \<Rightarrow> False | d # ds \<Rightarrow> is_word d"
  have inner: "rmatch True (Seq (alts ws) Bnd) (p, s) =
      concat (map (\<lambda>w. if ?run = map lower_char w then [(True, dropWhile is_word s)] else []) ws)"
    unfolding rmatch_alts using assms
    by (intro arg_cong[where f=concat] map_cong refl) (simp only: rmatch_word)
  have first: "(case rmatch True (Seq (alts ws) Bnd) (p, s) of
                   [] \<Rightarrow> None
                 | (p', rest) # ms \<Rightarrow> if length rest < length s then Some (p', rest) else None)
                 = (if ?hit then (if length (dropWhile is_word s) < length s
                                  then Some (True, dropWhile is_word s) else None) else None)"
    unfolding inner
    by (simp only: first_of_choices[where f="\<lambda>y. case y of (p', rest) \<Rightarrow>
            if length rest < length s then Some (p', rest) else None"] prod.case)
  have sw: "?sw \<and> length (dropWhile is_word s) < length s" if ?hit
  proof -
    from that assms have "takeWhile is_word s \<noteq> []"
      by (auto simp: wordy_def)
    then obtain c cs where "s = c # cs" "is_word c"
      by (cases s) (auto split: if_splits)
    then show ?thesis
      by (simp add: less_Suc_eq_le length_dropWhile_le)
  qed
  have hit: "(?run \<in> set (map (map lower_char) ws)) = ?hit"
    by auto
  show ?thesis
  proof (cases "p \<noteq> ?sw")
    case True
    then have "rmatch True (seqs [Bnd, alts ws, Bnd]) (p, s)
               = rmatch True (Seq (alts ws) Bnd) (p, s)"
      by (simp only: rmatch_bounded simp_thms if_True)
    then have "match_here True (seqs [Bnd, alts ws, Bnd]) p s =
        (case rmatch True (Seq (alts ws) Bnd) (p, s) of
           [] \<Rightarrow> None
         | (p', rest) # ms \<Rightarrow> if length rest < length s then Some (p', rest) else None)"
      by (simp only: match_here_def)
    also note first
    finally show ?thesis
      using True sw unfolding hit by (cases p) auto
  next
    case False
    then have "rmatch True (seqs [Bnd, alts ws, Bnd]) (p, s) = []"
      by (simp only: rmatch_bounded simp_thms if_False)
    then have "match_here True (seqs [Bnd, alts ws, Bnd]) p s = None"
      by (simp only: match_here_def list.case)
    then show ?thesis
      using False sw unfolding hit by (cases p) auto
  qed
qed

lemma sub_inside_run:
  assumes "\<forall>w \<in> set ws. wordy w"
  shows "sub_from True (seqs [Bnd, alts ws, Bnd]) r True s =
         takeWhile is_word s @ sub_from True (seqs [Bnd, alts ws, Bnd]) r True (dropWhile is_word s)"
proof (induction s)
  case Nil
  then show ?case by simp
next
  case (Cons c cs)
  show ?case
  proof (cases "is_word c")
    case True
    have "match_here True (seqs [Bnd, alts ws, Bnd]) True (c # cs) = None"
      by (simp only: match_words[OF assms] simp_thms if_False)
    then have "sub_from True (seqs [Bnd, alts ws, Bnd]) r True (c # cs)
               = c # sub_from True (seqs [Bnd, alts ws, Bnd]) r True cs"
      using True by (simp only: sub_from.simps option.case)
    with Cons True show ?thesis by simp
  next
    case False
    then show ?thesis by simp
  qed
qed

lemma no_hit_on_nonword:
  assumes "\<forall>w \<in> set ws. wordy w" and "\<not> is_word c"
  shows "match_here True (seqs [Bnd, alts ws, Bnd]) p (c # cs) = None"
proof -
  have "map lower_char (takeWhile is_word (c # cs)) \<notin> set (map (map lower_char) ws)"
    using assms by (auto simp: wordy_def)
  then show ?thesis
    by (simp only: match_words[OF assms(1)] simp_thms if_False)
qed

lemma sub_words:
  assumes ws: "\<forall>w \<in> set ws. wordy w"
  shows "\<not> (p \<and> (case s of [] \<Rightarrow> False | d # ds \<Rightarrow> is_word d)) \<Longrightarrow>
         sub_from True (seqs [Bnd, alts ws, Bnd]) r p s = map_words (word_rule ws r) s"
proof (induction "length s" arbitrary: s p rule: less_induct)
  case less
  let ?pat = "seqs [Bnd, alts ws, Bnd]"
  show ?case
  proof (cases s)
    case Nil
    then show ?thesis by simp
  next
    case (Cons c cs)
    show ?thesis
    proof (cases "is_word c")
      case False
      have "sub_from True ?pat r False cs = map_words (word_rule ws r) cs"
        by (rule less.hyps) (simp_all add: Cons)
      moreover have "sub_from True ?pat r p (c # cs) = c # sub_from True ?pat r (is_word c) cs"
        by (simp only: sub_from.simps no_hit_on_nonword[OF ws False] option.case)
      ultimately show ?thesis using False unfolding Cons by simp
    next
      case True
      with less.prems Cons have np: "\<not> p" by simp
      let ?run = "takeWhile is_word (c # cs)"
      let ?rest = "dropWhile is_word cs"
      have rest_eq: "dropWhile is_word (c # cs) = ?rest" using True by simp
      have run_eq: "?run = c # takeWhile is_word cs" using True by simp
      have ih: "sub_from True ?pat r True ?rest = map_words (word_rule ws r) ?rest"
      proof (rule less.hyps)
        show "length ?rest < length s"
          by (simp add: Cons less_Suc_eq_le length_dropWhile_le)
        show "\<not> (True \<and> (case ?rest of [] \<Rightarrow> False | d # ds \<Rightarrow> is_word d))"
          by (auto split: list.splits dest: dropWhile_head)
      qed
      have mw: "map_words (word_rule ws r) (c # cs)
                = word_rule ws r ?run @ map_words (word_rule ws r) ?rest"
        using True by (simp only: map_words.simps if_True)
      show ?thesis
      proof (cases "map lower_char ?run \<in> set (map (map lower_char) ws)")
        case hit: True
        have "match_here True ?pat p (c # cs) = Some (True, ?rest)"
          using np hit by (simp only: match_words[OF ws] rest_eq simp_thms if_True)
        then have "sub_from True ?pat r p (c # cs) = r @ sub_from True ?pat r True ?rest"
          by (simp only: sub_from.simps option.case prod.case)
        with ih mw hit show ?thesis unfolding Cons by (simp only: word_rule_def if_True)
      next
        case miss: False
        have "match_here True ?pat p (c # cs) = None"
          using miss by (simp only: match_words[OF ws] simp_thms if_False)
        then have "sub_from True ?pat r p (c # cs) = c # sub_from True ?pat r True cs"
          using True by (simp only: sub_from.simps option.case)
        also have "\<dots> = c # takeWhile is_word cs @ sub_from True ?pat r True ?rest"
          using sub_inside_run[OF ws, of r cs] by simp
        finally have "sub_from True ?pat r p (c # cs) = ?run @ map_words (word_rule ws r) ?rest"
          using ih run_eq by simp
        with mw miss show ?thesis unfolding Cons by (simp only: word_rule_def if_False)
      qed
    qed
  qed
qed

lemma search_inside_run:
  assumes "\<forall>w \<in> set ws. wordy w"
  shows "search_from True (seqs [Bnd, alts ws, Bnd]) True s =
         search_from True (seqs [Bnd, alts ws, Bnd]) True (dropWhile is_word s)"
proof (induction s)
  case Nil
  then show ?case by simp
next
  case (Cons c cs)
  show ?case
  proof (cases "is_word c")
    case True
    have "match_here True (seqs [Bnd, alts ws, Bnd]) True (c # cs) = None"
      by (simp only: match_words[OF assms] simp_thms if_False)
    then have "search_from True (seqs [Bnd, alts ws, Bnd]) True (c # cs)
               = search_from True (seqs [Bnd, alts ws, Bnd]) True cs"
      using True by (simp only: search_from.simps simp_thms)
    with Cons True show ?thesis by simp
  next
    case False
    then show ?thesis by simp
  qed
qed

lemma search_words:
  assumes ws: "\<forall>w \<in> set ws. wordy w"
  shows "\<not> (p \<and> (case s of [] \<Rightarrow> False | d # ds \<Rightarrow> is_word d)) \<Longrightarrow>
         search_from True (seqs [Bnd, alts ws, Bnd]) p s =
           (\<exists>u \<in> set (runs is_word s). map lower_char u \<in> set (map (map lower_char) ws))"
proof (induction "length s" arbitrary: s p rule: less_induct)
  case less
  let ?pat = "seqs [Bnd, alts ws, Bnd]"
  let ?hit = "\<lambda>u. map lower_char u \<in> set (map (map lower_char) ws)"
  show ?case
  proof (cases s)
    case Nil
    then show ?thesis by simp
  next
    case (Cons c cs)
    show ?thesis
    proof (cases "is_word c")
      case False
      have "search_from True ?pat False cs = (\<exists>u \<in> set (runs is_word cs). ?hit u)"
        by (rule less.hyps) (simp_all add: Cons)
      moreover have "search_from True ?pat p (c # cs) = search_from True ?pat (is_word c) cs"
        by (simp only: search_from.simps no_hit_on_nonword[OF ws False] simp_thms)
      ultimately show ?thesis using False unfolding Cons by simp
    next
      case True
      with less.prems Cons have np: "\<not> p" by simp
      let ?run = "takeWhile is_word (c # cs)"
      let ?rest = "dropWhile is_word cs"
      have rest_eq: "dropWhile is_word (c # cs) = ?rest" using True by simp
      have ih: "search_from True ?pat True ?rest = (\<exists>u \<in> set (runs is_word ?rest). ?hit u)"
      proof (rule less.hyps)
        show "length ?rest < length s"
          by (simp add: Cons less_Suc_eq_le length_dropWhile_le)
        show "\<not> (True \<and> (case ?rest of [] \<Rightarrow> False | d # ds \<Rightarrow> is_word d))"
          by (auto split: list.splits dest: dropWhile_head)
      qed
      have rn: "runs is_word (c # cs) = ?run # runs is_word ?rest"
        using True by (simp only: runs.simps if_True)
      have m: "(match_here True ?pat p (c # cs) \<noteq> None) = ?hit ?run"
        using np by (simp only: match_words[OF ws] simp_thms split: if_splits) simp
      have "search_from True ?pat p (c # cs) = (?hit ?run \<or> search_from True ?pat True cs)"
        using True m by (simp only: search_from.simps)
      also have "search_from True ?pat True cs = search_from True ?pat True ?rest"
        by (rule search_inside_run[OF ws])
      finally show ?thesis unfolding Cons rn ih by simp
    qed
  qed
qed

lemma runs_nonempty: "u \<in> set (runs P s) \<Longrightarrow> u \<noteq> []"
  by (induction P s arbitrary: u rule: runs.induct) (auto split: if_splits)

lemma runs_all: "u \<in> set (runs P s) \<Longrightarrow> c \<in> set u \<Longrightarrow> P c"
  by (induction P s arbitrary: u rule: runs.induct) (auto split: if_splits dest: set_takeWhileD)

lemma map_words_head:
  "s = [] \<or> \<not> is_word (hd s) \<Longrightarrow> map_words f s = [] \<or> \<not> is_word (hd (map_words f s))"
  by (cases s) auto

lemma runs_map_words:
  assumes "\<And>u. \<forall>c \<in> set u. is_word c \<Longrightarrow> \<forall>c \<in> set (f u). is_word c"
  shows "runs is_word (map_words f s) = filter (\<lambda>x. x \<noteq> []) (map f (runs is_word s))"
  using assms
proof (induction f s rule: map_words.induct)
  case (1 f)
  then show ?case by simp
next
  case (2 f c cs)
  show ?case
  proof (cases "is_word c")
    case False
    with 2 show ?thesis by simp
  next
    case True
    let ?run = "takeWhile is_word (c # cs)"
    let ?rest = "dropWhile is_word cs"
    have "?rest = [] \<or> \<not> is_word (hd ?rest)"
      by (metis hd_dropWhile)
    then have x: "map_words f ?rest = [] \<or> \<not> is_word (hd (map_words f ?rest))"
      by (rule map_words_head)
    have "\<forall>c \<in> set ?run. is_word c" by (auto dest: set_takeWhileD)
    then have fr: "\<forall>c \<in> set (f ?run). is_word c" by (rule 2(3))
    have "runs is_word (f ?run @ map_words f ?rest)
          = (if f ?run = [] then [] else [f ?run]) @ runs is_word (map_words f ?rest)"
      by (rule runs_word_prefix[OF fr x])
    with 2(1)[OF True 2(3)] True show ?thesis
      by (simp del: takeWhile.simps)
  qed
qed

section \<open>Tokens after the passes\<close>

lemma tokenize_runs: "tokenize s = map (map lower_char) (runs is_word s)"
proof -
  have "tokenize s = runs is_word (map lower_char s)"
    unfolding tokenize_def re_findall_def str_lower_def
    by (rule findall_tokens) simp
  then show ?thesis by (simp only: runs_map_lower)
qed

lemma tokenize_strip: "tokenize (str_strip s) = tokenize s"
  by (simp only: tokenize_runs runs_strip)

lemma word_rule_wordy:
  "\<forall>c \<in> set r. is_word c \<Longrightarrow> \<forall>c \<in> set u. is_word c \<Longrightarrow> \<forall>c \<in> set (word_rule ws r u). is_word c"
  by (simp add: word_rule_def)

lemma tokenize_sub_words:
  assumes "\<forall>w \<in> set ws. wordy w" and "\<forall>c \<in> set r. is_word c"
  shows "tokenize (re_sub True (seqs [Bnd, alts ws, Bnd]) r s) =
         map (map lower_char) (filter (\<lambda>x. x \<noteq> []) (map (word_rule ws r) (runs is_word s)))"
proof -
  have "re_sub True (seqs [Bnd, alts ws, Bnd]) r s = map_words (word_rule ws r) s"
    unfolding re_sub_def by (rule sub_words[OF assms(1)]) simp
  moreover have "runs is_word (map_words (word_rule ws r) s)
        = filter (\<lambda>x. x \<noteq> []) (map (word_rule ws r) (runs is_word s))"
    by (rule runs_map_words) (rule word_rule_wordy[OF assms(2)])
  ultimately show ?thesis by (simp only: tokenize_runs)
qed

lemma tokens_removed:
  assumes "\<forall>w \<in> set ws. wordy w"
  shows "set (tokenize (re_sub True (seqs [Bnd, alts ws, Bnd]) [] s))
         = set (tokenize s) - set (map (map lower_char) ws)"
proof -
  have "tokenize (re_sub True (seqs [Bnd, alts ws, Bnd]) [] s) =
         map (map lower_char) (filter (\<lambda>x. x \<noteq> []) (map (word_rule ws []) (runs is_word s)))"
    by (rule tokenize_sub_words[OF assms]) simp
  then show ?thesis
    unfolding tokenize_runs
    by (auto simp: word_rule_def dest: runs_nonempty split: if_splits)
qed

lemma tokens_replaced:
  assumes "wordy w" and "\<forall>c \<in> set r. is_word c"
  shows "set (tokenize (re_sub True (word_pat w) r s))
         \<subseteq> set (tokenize s) \<union> {map lower_char r}"
proof -
  have pat: "word_pat w = seqs [Bnd, alts [w], Bnd]"
    by (simp add: word_pat_def)
  have "tokenize (re_sub True (word_pat w) r s) =
         map (map lower_char) (filter (\<lambda>x. x \<noteq> []) (map (word_rule [w] r) (runs is_word s)))"
    unfolding pat by (rule tokenize_sub_words) (simp_all add: assms)
  then show ?thesis
    unfolding tokenize_runs
    by (auto simp: word_rule_def split: if_splits)
qed

lemma search_token:
  assumes "wordy w" and "re_search True (word_pat w) s"
  shows "map lower_char w \<in> set (tokenize s)"
proof -
  have pat: "word_pat w = seqs [Bnd, alts [w], Bnd]"
    by (simp add: word_pat_def)
  have eq: "search_from True (seqs [Bnd, alts [w], Bnd]) False s =
           (\<exists>u \<in> set (runs is_word s). map lower_char u \<in> set (map (map lower_char) [w]))"
    by (rule search_words) (simp_all add: assms)
  from assms(2) have "search_from True (seqs [Bnd, alts [w], Bnd]) False s"
    unfolding re_search_def pat .
  then have "\<exists>u \<in> set (runs is_word s). map lower_char u \<in> set (map (map lower_char) [w])"
    by (simp only: eq)
  then obtain u where "u \<in> set (runs is_word s)" "map lower_char u = map lower_char w"
    by auto
  then show ?thesis
    unfolding tokenize_runs by (metis image_eqI set_map)
qed

lemma lower_upper_char [simp]: "lower_char (upper_char c) = lower_char c"
  by (cases c) (auto simp: char_eval)

lemma lower_lower_char [simp]: "lower_char (lower_char c) = lower_char c"
  by (cases c) (auto simp: char_eval)

lemma lower_capitalize: "map lower_char (str_capitalize q) = map lower_char q"
  by (cases q) simp_all

lemma tokenize_capitalize: "tokenize (str_capitalize q) = tokenize q"
  by (simp only: tokenize_runs runs_map_lower[symmetric] lower_capitalize)

lemma not_word_stop [simp]: "\<not> is_word CHR ''.''" "\<not> is_word CHR '' ''"
  by (simp_all add: char_eval)

lemma runs_join: "runs is_word (str_join ''. '' ps) = concat (map (runs is_word) ps)"
proof (induction "''. ''" ps rule: str_join.induct)
  case 1
  then show ?case by simp
next
  case (2 p)
  then show ?case by simp
next
  case (3 p q ps)
  have "runs is_word (p @ CHR ''.'' # CHR '' '' # str_join ''. '' (q # ps))
        = runs is_word p @ runs is_word (str_join ''. '' (q # ps))"
    by (simp add: runs_append_stop)
  with 3 show ?case by simp
qed

lemma runs_split_on_gen:
  assumes "\<And>c. Q c \<Longrightarrow> \<not> P c"
  shows "runs P (a @ s) = runs P (a @ hd (split_on Q s)) @ concat (map (runs P) (tl (split_on Q s)))"
proof (induction s arbitrary: a)
  case Nil
  then show ?case by simp
next
  case (Cons c s)
  obtain q qs where x: "split_on Q s = q # qs"
    by (cases "split_on Q s") simp_all
  show ?case
  proof (cases "Q c")
    case True
    then have "runs P (a @ c # s) = runs P a @ runs P s"
      by (simp add: runs_append_stop assms)
    moreover have "runs P s = runs P q @ concat (map (runs P) qs)"
      using Cons[of "[]"] x by simp
    ultimately show ?thesis using True x by simp
  next
    case False
    have "runs P ((a @ [c]) @ s) = runs P ((a @ [c]) @ q) @ concat (map (runs P) qs)"
      using Cons[of "a @ [c]"] x by simp
    then show ?thesis using False x by simp
  qed
qed

lemma runs_split_on:
  assumes "\<And>c. Q c \<Longrightarrow> \<not> P c"
  shows "concat (map (runs P) (split_on Q s)) = runs P s"
proof -
  obtain q qs where x: "split_on Q s = q # qs"
    by (cases "split_on Q s") simp_all
  with runs_split_on_gen[of Q P "[]" s, OF assms] show ?thesis by simp
qed

lemma is_sep_not_word: "is_sep c \<Longrightarrow> \<not> is_word c"
  by (auto simp: is_sep_def char_eval)

lemma tokenize_split_long: "tokenize (split_long_sentences s) = tokenize s"
proof (cases "20 < length (str_split s) \<and> 1 < length (split_on is_sep s)")
  case False
  then show ?thesis by (auto simp: split_long_sentences_eq)
next
  case True
  let ?parts = "split_on is_sep s"
  have "tokenize (split_long_sentences s)
        = concat (map (\<lambda>q. tokenize (str_capitalize (str_strip q))) ?parts)"
    using True
    by (simp add: split_long_sentences_eq tokenize_runs runs_join map_concat comp_def)
  also have "\<dots> = concat (map tokenize ?parts)"
    by (simp only: tokenize_capitalize tokenize_strip)
  also have "\<dots> = map (map lower_char) (concat (map (runs is_word) ?parts))"
    by (simp add: tokenize_runs[abs_def] map_concat comp_def)
  also have "\<dots> = tokenize s"
    by (simp only: runs_split_on[of is_sep is_word, OF is_sep_not_word] tokenize_runs)
  finally show ?thesis .
qed

section \<open>The number converter, word by word\<close>

lemma map_words_id: "map_words (\<lambda>u. u) s = s"
  by (induction "\<lambda>u::string. u" s rule: map_words.induct) auto

lemma map_words_prefix:
  assumes "wordy u" and "x = [] \<or> \<not> is_word (hd x)"
  shows "map_words g (u @ x) = g u @ map_words g x"
proof -
  from assms(1) obtain d ds where u: "u = d # ds" and d: "is_word d"
    and ds: "\<forall>c \<in> set ds. is_word c"
    by (cases u) (auto simp: wordy_def)
  have "takeWhile is_word (ds @ x) = ds \<and> dropWhile is_word (ds @ x) = x"
    by (rule split_run[OF ds assms(2)])
  with d show ?thesis unfolding u by simp
qed

lemma map_words_comp:
  assumes "\<And>u. wordy u \<Longrightarrow> wordy (f u)"
  shows "map_words g (map_words f s) = map_words (g \<circ> f) s"
  using assms
proof (induction f s rule: map_words.induct)
  case (1 f)
  then show ?case by simp
next
  case (2 f c cs)
  show ?case
  proof (cases "is_word c")
    case False
    with 2 show ?thesis by simp
  next
    case True
    let ?run = "takeWhile is_word (c # cs)"
    let ?rest = "dropWhile is_word cs"
    have "?rest = [] \<or> \<not> is_word (hd ?rest)"
      by (metis hd_dropWhile)
    then have x: "map_words f ?rest = [] \<or> \<not> is_word (hd (map_words f ?rest))"
      by (rule map_words_head)
    have "wordy ?run"
      using True by (auto simp: wordy_def dest: set_takeWhileD)
    then have fr: "wordy (f ?run)" by (rule 2(3))
    have "map_words g (f ?run @ map_words f ?rest) = g (f ?run) @ map_words g (map_words f ?rest)"
      by (rule map_words_prefix[OF fr x])
    with 2(1)[OF True 2(3)] True show ?thesis
      by (simp del: takeWhile.simps)
  qed
qed

lemma re_sub_word:
  assumes "wordy w"
  shows "re_sub True (word_pat w) r s = map_words (word_rule [w] r) s"
proof -
  have pat: "word_pat w = seqs [Bnd, alts [w], Bnd]"
    by (simp add: word_pat_def)
  show ?thesis
    unfolding re_sub_def pat by (rule sub_words) (simp_all add: assms)
qed

lemma number_rule_step:
  assumes "map lower_char r \<notin> set (map (\<lambda>(w, r). map lower_char w) tbl)"
  shows "number_rule (lower_keys tbl) \<circ> word_rule [w] r = number_rule (lower_keys ((w, r) # tbl))"
proof (rule ext)
  fix u
  have "map_of (lower_keys tbl) (map lower_char r) = None"
    using assms by (force simp: lower_keys_def map_of_eq_None_iff)
  then show "(number_rule (lower_keys tbl) \<circ> word_rule [w] r) u
             = number_rule (lower_keys ((w, r) # tbl)) u"
    by (simp add: number_rule_def word_rule_def lower_keys_def)
qed

lemma fold_sub_words:
  assumes "\<forall>(w, r) \<in> set tbl. wordy w \<and> wordy r
             \<and> map lower_char r \<notin> set (map (\<lambda>(w, r). map lower_char w) tbl)"
  shows "fold (\<lambda>(w, n) s. re_sub True (word_pat w) n s) tbl s
         = map_words (number_rule (lower_keys tbl)) s"
  using assms
proof (induction tbl arbitrary: s)
  case Nil
  then show ?case
    by (simp add: number_rule_def[abs_def] lower_keys_def map_words_id)
next
  case (Cons e tbl)
  obtain w r where e: "e = (w, r)" by (cases e)
  from Cons.prems e have w: "wordy w" and r: "wordy r"
    and fresh: "map lower_char r \<notin> set (map (\<lambda>(w, r). map lower_char w) tbl)"
    by auto
  from Cons.prems have rest: "\<forall>(w, r) \<in> set tbl. wordy w \<and> wordy r
             \<and> map lower_char r \<notin> set (map (\<lambda>(w, r). map lower_char w) tbl)"
    by fastforce
  have keep: "wordy (word_rule [w] r u)" if "wordy u" for u
    using that r by (simp add: word_rule_def)
  have "fold (\<lambda>(w, n) s. re_sub True (word_pat w) n s) (e # tbl) s
        = fold (\<lambda>(w, n) s. re_sub True (word_pat w) n s) tbl (re_sub True (word_pat w) r s)"
    by (simp add: e)
  also have "\<dots> = map_words (number_rule (lower_keys tbl)) (re_sub True (word_pat w) r s)"
    by (rule Cons.IH[OF rest])
  also have "\<dots> = map_words (number_rule (lower_keys tbl)) (map_words (word_rule [w] r) s)"
    by (simp only: re_sub_word[OF w])
  also have "\<dots> = map_words (number_rule (lower_keys tbl) \<circ> word_rule [w] r) s"
    by (rule map_words_comp) (rule keep)
  also have "\<dots> = map_words (number_rule (lower_keys (e # tbl))) s"
    by (simp only: number_rule_step[OF fresh] e)
  finally show ?case .
qed

lemma default_numbers_fresh:
  "\<forall>(w, r) \<in> set default_number_mapping. wordy w \<and> wordy r
     \<and> map lower_char r \<notin> set (map (\<lambda>(w, r). map lower_char w) default_number_mapping)"
  by (simp add: default_number_mapping_def wordy_def char_eval)

lemma default_numbers_lower: "lower_keys default_number_mapping = default_number_mapping"
  by (simp add: default_number_mapping_def lower_keys_def char_eval)

lemma convert_numbers_default:
  "convert_numbers default_config s = map_words (number_rule default_number_mapping) s"
proof -
  have "number_mapping default_config = default_number_mapping"
    by (simp add: default_config_def)
  then show ?thesis
    unfolding convert_numbers_def
    by (simp only: fold_sub_words[OF default_numbers_fresh] default_numbers_lower)
qed

text \<open>
  C6. With the default table the number converter rewrites the string word by word:
  every maximal run of word characters that is a number word of the table, in any
  case, becomes its digit string, and every other character is copied. The words are
  replaced one by one, whatever stands next to them: \<open>I have one hundred dogs\<close>
  becomes \<open>I have 1 100 dogs\<close>, and in \<open>someone ONE\<close> only the second word is a
  number word.
\<close>

theorem convert_numbers_word_by_word:
  "convert_numbers default_config s = map_words (number_rule default_number_mapping) s
   \<and> convert_numbers default_config ''I have one hundred dogs'' = ''I have 1 100 dogs''
   \<and> convert_numbers default_config ''someone ONE'' = ''someone 1''"
proof (intro conjI)
  show "convert_numbers default_config s = map_words (number_rule default_number_mapping) s"
    by (rule convert_numbers_default)
  show "convert_numbers default_config ''I have one hundred dogs'' = ''I have 1 100 dogs''"
    by (simp add: convert_numbers_def table_defs regex_eval char_eval)
  show "convert_numbers default_config ''someone ONE'' = ''someone 1''"
    by (simp add: convert_numbers_def table_defs regex_eval char_eval)
qed

section \<open>Level 4\<close>

lemmas removed_defs = removed_words_def linking_verbs_def having_verbs_def relative_pronouns_def

lemma removed_wordy:
  "\<forall>w \<in> set linking_verbs. wordy w" "\<forall>w \<in> set having_verbs. wordy w"
  "\<forall>w \<in> set relative_pronouns. wordy w"
  by (simp_all add: removed_defs wordy_def char_eval)

lemma removed_lower:
  "map (map lower_char) linking_verbs = linking_verbs"
  "map (map lower_char) having_verbs = having_verbs"
  "map (map lower_char) relative_pronouns = relative_pronouns"
  by (simp_all add: removed_defs char_eval)

lemma tokens_compress_max:
  "set (tokenize (compress_max x)) = set (tokenize x) - set removed_words"
  unfolding compress_max_def Let_def tokenize_strip
  by (simp only: tokens_removed[OF removed_wordy(1)] tokens_removed[OF removed_wordy(2)]
        tokens_removed[OF removed_wordy(3)] removed_lower removed_words_def set_append)
     blast

lemma tokens_fold_replaced:
  assumes "\<forall>(w, r) \<in> set tbl. wordy w \<and> (\<forall>c \<in> set r. is_word c)"
  shows "set (tokenize (fold (\<lambda>(w, n) s. re_sub True (word_pat w) n s) tbl s))
         \<subseteq> set (tokenize s) \<union> set (map (\<lambda>(w, r). map lower_char r) tbl)"
  using assms
proof (induction tbl arbitrary: s)
  case Nil
  then show ?case by simp
next
  case (Cons e tbl)
  obtain w r where e: "e = (w, r)" by (cases e)
  with Cons.prems have w: "wordy w" and r: "\<forall>c \<in> set r. is_word c" by auto
  from Cons.prems have rest: "\<forall>(w, r) \<in> set tbl. wordy w \<and> (\<forall>c \<in> set r. is_word c)"
    by simp
  have "set (tokenize (fold (\<lambda>(w, n) s. re_sub True (word_pat w) n s) tbl
                 (re_sub True (word_pat w) r s)))
        \<subseteq> set (tokenize (re_sub True (word_pat w) r s))
           \<union> set (map (\<lambda>(w, r). map lower_char r) tbl)"
    by (rule Cons.IH[OF rest])
  with tokens_replaced[OF w r, of s] show ?case
    unfolding e by auto
qed

lemma default_numbers_wordy:
  "\<forall>(w, r) \<in> set (number_mapping default_config). wordy w \<and> (\<forall>c \<in> set r. is_word c)"
  by (simp add: table_defs wordy_def char_eval)

lemma default_numbers_not_removed:
  "set removed_words \<inter> set (map (\<lambda>(w, r). map lower_char r) (number_mapping default_config)) = {}"
  by (simp add: table_defs removed_defs char_eval)

lemma removed_words_wordy: "\<forall>w \<in> set removed_words. wordy w \<and> map lower_char w = w"
  by (simp add: removed_defs wordy_def char_eval)

lemma simplify_level4_shape:
  "level self = 4 \<Longrightarrow>
   \<exists>x. simplify self s =
        str_strip (convert_numbers (config self) (split_long_sentences (compress_max x)))"
  by (simp add: simplify_def Let_def) blast

lemma level4_tokens:
  "set (tokenize (simplify (plain_level 4) s)) \<inter> set removed_words = {}"
proof -
  obtain x where x: "simplify (plain_level 4) s =
        str_strip (convert_numbers default_config (split_long_sentences (compress_max x)))"
    using simplify_level4_shape[of "plain_level 4" s] by (auto simp: plain_level_def)
  let ?y = "split_long_sentences (compress_max x)"
  have "set (tokenize (convert_numbers default_config ?y))
        \<subseteq> set (tokenize ?y)
           \<union> set (map (\<lambda>(w, r). map lower_char r) (number_mapping default_config))"
    unfolding convert_numbers_def
    by (rule tokens_fold_replaced[OF default_numbers_wordy])
  moreover have "set (tokenize ?y) \<inter> set removed_words = {}"
    by (simp only: tokenize_split_long tokens_compress_max) blast
  ultimately show ?thesis
    using default_numbers_not_removed unfolding x tokenize_strip by blast
qed

lemma simplify_stages:
  "simplify self s =
     str_strip (convert_numbers (config self) (split_long_sentences
       (if level self = 4 then compress_max (before_level4 self s) else before_level4 self s)))"
  by (simp add: simplify_def before_level4_def Let_def split: prod.splits)

lemma before_level4_level1: "before_level4 (plain_level 1) s = s"
  by (simp add: before_level4_def plain_level_def Let_def)

lemma filter_rewritten:
  assumes "\<And>u. u \<in> set us \<Longrightarrow>
             u \<noteq> [] \<and> (f u = u \<or> (f u \<noteq> [] \<and> \<not> R (map lower_char (f u))
                                      \<and> \<not> R (map lower_char u)))"
  shows "filter R (map (map lower_char) (filter (\<lambda>x. x \<noteq> []) (map f us)))
         = filter R (map (map lower_char) us)"
  using assms
proof (induction us)
  case Nil
  then show ?case by simp
next
  case (Cons u us)
  from Cons.prems[of u] have u: "u \<noteq> []"
    and f: "f u = u \<or> (f u \<noteq> [] \<and> \<not> R (map lower_char (f u)) \<and> \<not> R (map lower_char u))"
    by simp_all
  have "filter R (map (map lower_char) (filter (\<lambda>x. x \<noteq> []) (map f us)))
        = filter R (map (map lower_char) us)"
    by (rule Cons.IH) (simp add: Cons.prems)
  with u f show ?case by auto
qed

lemma default_numbers_apart:
  "\<forall>(w, r) \<in> set default_number_mapping.
      w \<notin> set removed_words \<and> map lower_char r \<notin> set removed_words"
  by (simp add: default_number_mapping_def removed_defs char_eval)

lemma number_rule_cases:
  "number_rule default_number_mapping u = u
   \<or> (wordy (number_rule default_number_mapping u)
      \<and> map lower_char (number_rule default_number_mapping u) \<notin> set removed_words
      \<and> map lower_char u \<notin> set removed_words)"
proof (cases "map_of default_number_mapping (map lower_char u)")
  case None
  then show ?thesis by (simp add: number_rule_def)
next
  case (Some n)
  then have m: "(map lower_char u, n) \<in> set default_number_mapping"
    by (rule map_of_SomeD)
  with default_numbers_fresh default_numbers_apart
  have "wordy n" "map lower_char n \<notin> set removed_words"
       "map lower_char u \<notin> set removed_words"
    by fastforce+
  with Some show ?thesis by (simp add: number_rule_def)
qed

lemma number_rule_wordy:
  "\<forall>c \<in> set u. is_word c \<Longrightarrow> \<forall>c \<in> set (number_rule default_number_mapping u). is_word c"
  using number_rule_cases[of u] by (auto simp: wordy_def)

lemma removed_tokens_numbers:
  "removed_tokens (convert_numbers default_config x) = removed_tokens x"
proof -
  let ?f = "number_rule default_number_mapping"
  have "tokenize (convert_numbers default_config x)
        = map (map lower_char) (filter (\<lambda>x. x \<noteq> []) (map ?f (runs is_word x)))"
    unfolding convert_numbers_default tokenize_runs
    by (simp only: runs_map_words[of ?f, OF number_rule_wordy])
  moreover have "filter (\<lambda>t. t \<in> set removed_words)
           (map (map lower_char) (filter (\<lambda>x. x \<noteq> []) (map ?f (runs is_word x))))
        = filter (\<lambda>t. t \<in> set removed_words) (map (map lower_char) (runs is_word x))"
  proof (rule filter_rewritten)
    fix u assume "u \<in> set (runs is_word x)"
    then have "u \<noteq> []" by (rule runs_nonempty)
    with number_rule_cases[of u]
    show "u \<noteq> [] \<and> (?f u = u \<or> (?f u \<noteq> [] \<and> map lower_char (?f u) \<notin> set removed_words
                                   \<and> map lower_char u \<notin> set removed_words))"
      by (auto simp: wordy_def)
  qed
  ultimately show ?thesis
    by (simp only: removed_tokens_def tokenize_runs)
qed

lemma removed_tokens_post:
  "removed_tokens (str_strip (convert_numbers default_config (split_long_sentences x)))
   = removed_tokens x"
proof -
  have "removed_tokens (str_strip (convert_numbers default_config (split_long_sentences x)))
        = removed_tokens (convert_numbers default_config (split_long_sentences x))"
    by (simp only: removed_tokens_def tokenize_strip)
  also have "\<dots> = removed_tokens (split_long_sentences x)"
    by (rule removed_tokens_numbers)
  also have "\<dots> = removed_tokens x"
    by (simp only: removed_tokens_def tokenize_split_long)
  finally show ?thesis .
qed

lemma removed_tokens_below4:
  assumes "l \<noteq> 4"
  shows "removed_tokens (simplify (plain_level l) s)
         = removed_tokens (before_level4 (plain_level l) s)"
proof -
  have "simplify (plain_level l) s =
     str_strip (convert_numbers default_config (split_long_sentences
       (before_level4 (plain_level l) s)))"
    using assms simplify_stages[of "plain_level l" s] by (simp add: plain_level_def)
  then show ?thesis by (simp only: removed_tokens_post)
qed

text \<open>
  C5. For every sentence, what \<open>_simplify\<close> returns at level 4 with the default tables
  contains none of \<open>is, are, am, was, were, has, have, had, that, which, who\<close> as a
  whole word in any case: \<open>re.search\<close> with \<open>\bword\b\<close> and \<open>re.IGNORECASE\<close> finds
  nothing. The removal is applied exactly when the level is 4. At every other level,
  and for every sentence, the occurrences of these words in the result are those of
  the string the blocks of the levels 1 to 3 produce, in the same order and number; at
  level 1 they are those of the sentence itself. For instance \<open>he was tall\<close> keeps
  its \<open>was\<close> at the levels 1, 2 and 3.
\<close>

theorem level4_removes_words:
  "(\<forall>w \<in> set removed_words. \<not> re_search True (word_pat w) (simplify (plain_level 4) s))
   \<and> simplify self s =
       str_strip (convert_numbers (config self) (split_long_sentences
         (if level self = 4 then compress_max (before_level4 self s) else before_level4 self s)))
   \<and> (l \<noteq> 4 \<longrightarrow> removed_tokens (simplify (plain_level l) s)
                    = removed_tokens (before_level4 (plain_level l) s))
   \<and> removed_tokens (simplify (plain_level 1) s) = removed_tokens s
   \<and> simplify (plain_level 3) ''he was tall'' = ''he was tall''
   \<and> simplify (plain_level 2) ''he was tall'' = ''he was tall''
   \<and> simplify (plain_level 1) ''he was tall'' = ''he was tall''"
proof (intro conjI ballI impI)
  fix w assume w: "w \<in> set removed_words"
  show "\<not> re_search True (word_pat w) (simplify (plain_level 4) s)"
  proof
    assume found: "re_search True (word_pat w) (simplify (plain_level 4) s)"
    from removed_words_wordy w have wy: "wordy w" and lw: "map lower_char w = w"
      by auto
    from search_token[OF wy found] lw
    have "w \<in> set (tokenize (simplify (plain_level 4) s))"
      by simp
    with w level4_tokens[of s] show False by auto
  qed
next
  show "simplify self s =
       str_strip (convert_numbers (config self) (split_long_sentences
         (if level self = 4 then compress_max (before_level4 self s) else before_level4 self s)))"
    by (rule simplify_stages)
next
  assume "l \<noteq> 4"
  then show "removed_tokens (simplify (plain_level l) s)
             = removed_tokens (before_level4 (plain_level l) s)"
    by (rule removed_tokens_below4)
next
  show "removed_tokens (simplify (plain_level 1) s) = removed_tokens s"
    using removed_tokens_below4[of 1 s] by (simp add: before_level4_level1)
next
  show "simplify (plain_level 3) ''he was tall'' = ''he was tall''"
    by (simp add: plain_level_def pipeline_defs table_defs regex_eval char_eval)
next
  show "simplify (plain_level 2) ''he was tall'' = ''he was tall''"
    by (simp add: plain_level_def pipeline_defs table_defs regex_eval char_eval)
next
  show "simplify (plain_level 1) ''he was tall'' = ''he was tall''"
    by (simp add: plain_level_def pipeline_defs table_defs regex_eval char_eval)
qed

lemmas stage_defs =
  before_level4_def tokenize_def str_lower_def remove_stop_words_def replace_synonyms_def
  remove_unnecessary_adjectives_def simplify_phrases_def remove_redundant_phrases_def
  convert_passive_to_active_def passive_patterns_def passive_pattern_def

theorem level4_removes_words_witness:
  "''was'' \<in> set removed_words
   \<and> \<not> re_search True (word_pat ''was'') (simplify (plain_level 4) ''He WAS tall, who is that'')
   \<and> (3::int) \<noteq> 4
   \<and> removed_tokens (simplify (plain_level 3) ''she who had that hat'')
       = [''who'', ''had'', ''that'']"
proof -
  have m: "''was'' \<in> set removed_words"
    by (simp add: removed_defs)
  have b: "before_level4 (plain_level 3) ''she who had that hat'' = ''she who had that hat''"
    by (simp add: plain_level_def stage_defs table_defs regex_eval char_eval)
  have t: "removed_tokens ''she who had that hat'' = [''who'', ''had'', ''that'']"
    by (simp add: removed_tokens_def tokenize_runs removed_defs char_eval)
  from level4_removes_words[of "''He WAS tall, who is that''" "plain_level 4" 3] m
  have 1: "\<not> re_search True (word_pat ''was'') (simplify (plain_level 4) ''He WAS tall, who is that'')"
    by blast
  have ne: "(3::int) \<noteq> 4"
    by simp
  from level4_removes_words[of "''she who had that hat''" "plain_level 3" 3] ne
  have "removed_tokens (simplify (plain_level 3) ''she who had that hat'')
        = removed_tokens (before_level4 (plain_level 3) ''she who had that hat'')"
    by blast
  with b t have 2: "removed_tokens (simplify (plain_level 3) ''she who had that hat'')
       = [''who'', ''had'', ''that'']"
    by simp
  from m 1 2 show ?thesis by simp
qed

section \<open>The level selector\<close>

lemma fold_min_Min: "fold min ys (y::int) = Min (set (y # ys))"
  by (rule Min.set_eq_fold[symmetric])

lemma fold_max_Max: "fold max ys (y::int) = Max (set (y # ys))"
  by (rule Max.set_eq_fold[symmetric])

lemma set_level_general:
  assumes "compression_levels (config self) \<noteq> []"
  shows "set_level n self =
     (if n \<in> fst ` set (compression_levels (config self))
      then (Inr (), self\<lparr>level := n\<rparr>)
      else (Inl (ValueError (invalid_level_message
                  (Min (fst ` set (compression_levels (config self))))
                  (Max (fst ` set (compression_levels (config self)))))), self))"
proof -
  obtain k ks where ks: "map fst (compression_levels (config self)) = k # ks"
    using assms by (cases "compression_levels (config self)") auto
  have s: "fst ` set (compression_levels (config self)) = set (k # ks)"
    using ks by (metis set_map)
  show ?thesis
    unfolding set_level_def Let_def py_min_def py_max_def s ks
    by (simp add: fold_min_Min fold_max_Max del: set_simps)
qed

lemma default_levels: "fst ` set (compression_levels default_config) = {1, 2, 3, 4}"
  by (auto simp: table_defs)

lemma str_nat_digit: "n < 10 \<Longrightarrow> str_nat n = [char_of (48 + n)]"
  by (simp add: str_nat.simps)

lemmas message_eval = invalid_level_message_def str_int_def str_nat_digit char_of_def bit_Suc_0_iff

lemma default_message: "invalid_level_message 1 4 = ''Invalid level. Choose between 1 and 4.''"
  by (simp add: message_eval)

text \<open>
  C3. \<open>set_level n\<close> succeeds exactly when \<open>n\<close> is a key of the level table, and then
  the object holds \<open>n\<close> as its level. Otherwise it returns the \<open>ValueError\<close> (the spec's
  \<open>InvalidLevel\<close>) whose message names the least and the greatest key of the table, and
  the object is the one it was called on. The first conjunct is about any table with
  at least one key, the second about the default table, whose keys are 1 to 4.
\<close>

theorem set_level_spec:
  "(compression_levels (config self) \<noteq> [] \<longrightarrow>
      set_level n self =
        (if n \<in> fst ` set (compression_levels (config self))
         then (Inr (), self\<lparr>level := n\<rparr>)
         else (Inl (ValueError (invalid_level_message
                     (Min (fst ` set (compression_levels (config self))))
                     (Max (fst ` set (compression_levels (config self)))))), self)))
   \<and> (config self = default_config \<longrightarrow>
      set_level n self =
        (if n \<in> {1, 2, 3, 4} then (Inr (), self\<lparr>level := n\<rparr>)
         else (Inl (ValueError ''Invalid level. Choose between 1 and 4.''), self)))"
proof (intro conjI impI)
  assume "compression_levels (config self) \<noteq> []"
  then show "set_level n self =
        (if n \<in> fst ` set (compression_levels (config self))
         then (Inr (), self\<lparr>level := n\<rparr>)
         else (Inl (ValueError (invalid_level_message
                     (Min (fst ` set (compression_levels (config self))))
                     (Max (fst ` set (compression_levels (config self)))))), self))"
    by (rule set_level_general)
next
  assume d: "config self = default_config"
  have ne: "compression_levels (config self) \<noteq> []"
    by (simp add: d table_defs)
  have k: "fst ` set (compression_levels (config self)) = {1, 2, 3, 4}"
    by (simp only: d default_levels)
  show "set_level n self =
        (if n \<in> {1, 2, 3, 4} then (Inr (), self\<lparr>level := n\<rparr>)
         else (Inl (ValueError ''Invalid level. Choose between 1 and 4.''), self))"
    unfolding set_level_general[OF ne] k
    by (simp add: default_message)
qed

theorem set_level_spec_witness:
  "set_level 3 \<lparr> config = default_config, level = 1 \<rparr>
     = (Inr (), \<lparr> config = default_config, level = 3 \<rparr>)
   \<and> set_level 7 \<lparr> config = default_config\<lparr>compression_levels := [(2, ''low''), (5, ''high'')]\<rparr>,
                    level = 2 \<rparr>
     = (Inl (ValueError ''Invalid level. Choose between 2 and 5.''),
        \<lparr> config = default_config\<lparr>compression_levels := [(2, ''low''), (5, ''high'')]\<rparr>,
          level = 2 \<rparr>)
   \<and> set_level 0 \<lparr> config = default_config, level = 1 \<rparr>
     = (Inl (ValueError ''Invalid level. Choose between 1 and 4.''),
        \<lparr> config = default_config, level = 1 \<rparr>)"
  using set_level_spec[of "\<lparr> config = default_config, level = 1 \<rparr>" 3]
    set_level_spec[of "\<lparr> config = default_config, level = 1 \<rparr>" 0]
    set_level_spec[of "\<lparr> config = default_config\<lparr>compression_levels := [(2, ''low''), (5, ''high'')]\<rparr>,
                        level = 2 \<rparr>" 7]
  by (simp add: message_eval)

section \<open>The batch driver\<close>

text \<open>
  C9. \<open>batch_simplify\<close> returns, for each sentence and in the same order, what
  \<open>_simplify\<close> returns for it on the object as it is when the batch starts (so at the
  level active then); the list of results is as long as the list of sentences, and
  the object after the call, tables and level, is the object before it. Only the log
  grows.
\<close>

theorem batch_simplify_spec:
  "fst (batch_simplify sentences w) = map (simplify (fst w)) sentences
   \<and> length (fst (batch_simplify sentences w)) = length sentences
   \<and> fst (snd (batch_simplify sentences w)) = fst w"
proof -
  have "fst (batch_simplify sentences w) = map (simplify (fst w)) sentences
        \<and> fst (snd (batch_simplify sentences w)) = fst w"
  proof (induction sentences arbitrary: w)
    case Nil
    then show ?case by simp
  next
    case (Cons x xs)
    obtain r w1 where 1: "simplify_sentence x w = (r, w1)"
      by (cases "simplify_sentence x w")
    then have r: "r = simplify (fst w) x" and w1: "fst w1 = fst w"
      by (auto simp: simplify_sentence_def logger_info_def Let_def)
    obtain rs w2 where 2: "batch_simplify xs w1 = (rs, w2)"
      by (cases "batch_simplify xs w1")
    with Cons.IH[of w1] have "rs = map (simplify (fst w1)) xs" "fst w2 = fst w1"
      by auto
    with 1 2 r w1 show ?case by simp
  qed
  then show ?thesis by simp
qed

section \<open>Runs of the pipeline on concrete sentences\<close>

text \<open>
  C7. A string in which no number word of the table occurs as a whole word, in any
  case, is returned unchanged by the number converter. An occurrence is a match of
  the pattern the converter itself searches, \<open>\bword\b\<close> with \<open>re.IGNORECASE\<close>.
\<close>

theorem convert_numbers_fixed:
  "\<forall>(w, n) \<in> set (number_mapping cfg). \<not> re_search True (word_pat w) s \<Longrightarrow>
   convert_numbers cfg s = s"
  unfolding convert_numbers_def by (rule fold_re_sub_no_match)

theorem convert_numbers_fixed_witness:
  "list_all (\<lambda>(w, n). \<not> re_search True (word_pat w) ''I have 1 100 dogs'')
     (number_mapping default_config)
   \<and> convert_numbers default_config ''I have 1 100 dogs'' = ''I have 1 100 dogs''"
proof -
  have h: "\<forall>(w, n) \<in> set (number_mapping default_config).
      \<not> re_search True (word_pat w) ''I have 1 100 dogs''"
    by (simp add: table_defs regex_eval char_eval)
  then have "list_all (\<lambda>(w, n). \<not> re_search True (word_pat w) ''I have 1 100 dogs'')
     (number_mapping default_config)"
    by (simp only: list_all_iff)
  then show ?thesis
    by (rule conjI[OF _ convert_numbers_fixed[OF h]])
qed

text \<open>
  C10. At level 4 the removal of \<open>was\<close> from \<open>he was tall\<close> leaves the two spaces
  that surrounded the word next to each other, and the final trim does not touch them.
\<close>

theorem simplify_level4_double_space:
  "simplify \<lparr> config = default_config, level = 4 \<rparr> ''he was tall'' = ''he  tall''"
  by (simp add: pipeline_defs table_defs regex_eval char_eval)

text \<open>
  C1. At level 1 the token stage computes \<open>[cat]\<close> from \<open>the cat\<close>, but the returned
  string is the sentence itself: the stop word \<open>the\<close> is still in it as a whole word.
\<close>

theorem simplify_level1_keeps_stop_word:
  "simplify \<lparr> config = default_config, level = 1 \<rparr> ''the cat'' = ''the cat''
   \<and> replace_synonyms default_config
        (remove_stop_words default_config (tokenize ''the cat'')) = [''cat'']
   \<and> ''the'' \<in> stop_words default_config
   \<and> re_search True (word_pat ''the'')
        (simplify \<lparr> config = default_config, level = 1 \<rparr> ''the cat'')"
  by (simp add: pipeline_defs table_defs regex_eval char_eval)

end
